theory Spec2Isabelle
  imports Main "HOL-Library.Word" "HOL-Library.AList"
begin

section \<open>Go values: bytes, strings, errors and outcomes\<close>

text \<open>
  A Go \<^verbatim>\<open>[]byte\<close> is a list of 8-bit words and a Go \<^verbatim>\<open>string\<close> a list of
  characters; the conversions \<^verbatim>\<open>[]byte(s)\<close> and \<^verbatim>\<open>string(b)\<close> keep every byte.
  The \<^verbatim>\<open>int64\<close> fields of the program are only stored and compared, never used in
  arithmetic, so they are integers.
\<close>

type_synonym byte = "8 word"
type_synonym bytes = "byte list"

definition bytes_of_string :: "string \<Rightarrow> bytes" where
  "bytes_of_string s = map (\<lambda>c. word_of_nat (of_char c)) s"

definition string_of_bytes :: "bytes \<Rightarrow> string" where
  "string_of_bytes b = map (\<lambda>w. char_of (unat w)) b"

text \<open>
  An \<^verbatim>\<open>error\<close> value is either one a library call returned, or one the program built
  with \<^verbatim>\<open>fmt.Errorf\<close>, with or without a wrapped cause.
\<close>

datatype error =
    LibError string
  | Errorf string
  | ErrorfWrap string error

text \<open>
  A library call returns \<^verbatim>\<open>(T, error)\<close>, modelled as \<open>error + T\<close>. A function of the
  program can also panic (a slice expression out of range), so its outcome has three cases.
\<close>

datatype 'a result = Ok 'a | Err error | Panic string

definition slice_panic :: string where
  "slice_panic = ''runtime error: slice bounds out of range''"

section \<open>Wire messages (package api)\<close>

text \<open>
  The value \<^verbatim>\<open>json.Unmarshal\<close> stores into a \<^verbatim>\<open>map[string]interface{}\<close>. The program
  only compares such values with string constants, so numbers carry an integer.
\<close>

datatype json_value =
    JNull
  | JBool bool
  | JNumber int
  | JString string
  | JArray "json_value list"
  | JObject "(string \<times> json_value) list"

record IncomingPushMessage =
  push_Op :: string
  push_EncryptedPath :: string
  push_EncryptedHash :: string
  push_Size :: int
  push_Ctime :: int
  push_Mtime :: int
  push_Folder :: bool
  push_Deleted :: bool
  push_Device :: string
  push_Uid :: int

record OutgoingPushMessage =
  out_Op :: string
  out_Path :: string
  out_Ext :: string
  out_Hash :: string
  out_Ctime :: int
  out_Mtime :: int
  out_Folder :: bool
  out_Deleted :: bool
  out_Size :: int
  out_Pieces :: int

record PullHeaderMessage =
  header_Hash :: string
  header_Size :: int
  header_Pieces :: int

text \<open>The anonymous structs the program sends: \<^verbatim>\<open>init\<close>, \<^verbatim>\<open>pull\<close>, and a bare \<^verbatim>\<open>op\<close>.\<close>

record InitMessage =
  init_Op :: string
  init_ID :: string
  init_Token :: string
  init_Keyhash :: string
  init_Version :: int
  init_Initial :: bool
  init_Device :: string

record PullMessage =
  pull_Op :: string
  pull_UID :: int

datatype wire_message =
    JInit InitMessage
  | JOp string
  | JPull PullMessage
  | JPush OutgoingPushMessage

text \<open>A frame written to the socket: \<^verbatim>\<open>WriteJSON\<close> of a message, or a binary frame.\<close>

datatype wire_frame = TextFrame wire_message | BinaryFrame bytes

section \<open>The libraries the program calls\<close>

text \<open>
  The program calls \<^verbatim>\<open>scrypt\<close>, \<^verbatim>\<open>crypto/aes\<close>, \<^verbatim>\<open>crypto/cipher\<close>, \<^verbatim>\<open>crypto/sha256\<close>,
  \<^verbatim>\<open>encoding/hex\<close> and \<^verbatim>\<open>encoding/json\<close>. Their code is not part of the repository, so
  each call is a field of the record \<open>lib\<close>, and every definition below takes the
  record as its first argument. \<^verbatim>\<open>json.Unmarshal\<close> has one field for each type of value
  the program decodes into, and \<^verbatim>\<open>os.ReadFile\<close> is a field as well. A \<^verbatim>\<open>cipher.Block\<close> and a \<^verbatim>\<open>cipher.AEAD\<close> are opaque
  handles that only the library inspects.
\<close>

type_synonym cipher_Block = bytes
type_synonym cipher_AEAD = bytes

record lib =
  scrypt_Key :: "bytes \<Rightarrow> bytes \<Rightarrow> nat \<Rightarrow> nat \<Rightarrow> nat \<Rightarrow> nat \<Rightarrow> error + bytes"
  aes_NewCipher :: "bytes \<Rightarrow> error + cipher_Block"
  cipher_NewGCM :: "cipher_Block \<Rightarrow> error + cipher_AEAD"
  gcm_Seal :: "cipher_AEAD \<Rightarrow> bytes \<Rightarrow> bytes \<Rightarrow> bytes"
  gcm_Open :: "cipher_AEAD \<Rightarrow> bytes \<Rightarrow> bytes \<Rightarrow> error + bytes"
  sha256_Sum256 :: "bytes \<Rightarrow> bytes"
  hex_EncodeToString :: "bytes \<Rightarrow> string"
  hex_DecodeString :: "string \<Rightarrow> error + bytes"
  json_Unmarshal_map :: "bytes \<Rightarrow> error + (string \<rightharpoonup> json_value)"
  json_Unmarshal_Res :: "bytes \<Rightarrow> error + string"
  json_Unmarshal_Op :: "bytes \<Rightarrow> error + string"
  json_Unmarshal_IncomingPush :: "bytes \<Rightarrow> error + IncomingPushMessage"
  json_Unmarshal_Ready :: "bytes \<Rightarrow> error + (string \<times> int)"
  json_Unmarshal_PullHeader :: "bytes \<Rightarrow> error + PullHeaderMessage"
  json_Unmarshal_SizeResponse :: "bytes \<Rightarrow> error + (int \<times> int)"
  json_Marshal :: "wire_message \<Rightarrow> error + bytes"
  os_ReadFile :: "string \<Rightarrow> error + bytes"

text \<open>
  \<^verbatim>\<open>io.ReadFull(rand.Reader, buf)\<close> fills \<open>buf\<close> or fails. The argument \<open>rnd\<close> is
  the sequence of bytes the random reader has to give at this call.
\<close>

definition io_ReadFull :: "bytes \<Rightarrow> nat \<Rightarrow> error + bytes" where
  "io_ReadFull rnd n =
     (if length rnd < n then Inl (LibError ''unexpected EOF'') else Inr (take n rnd))"

text \<open>
  \<^verbatim>\<open>copy(dst, src)\<close> overwrites the first \<open>min (len dst) (len src)\<close> bytes of \<open>dst\<close>.
\<close>

definition go_copy :: "bytes \<Rightarrow> bytes \<Rightarrow> bytes" where
  "go_copy dst src = take (length dst) src @ drop (length src) dst"

section \<open>Package crypto\<close>

definition nonceSize :: nat where
  "nonceSize = 12"

definition deriveKey :: "lib \<Rightarrow> bytes \<Rightarrow> bytes \<Rightarrow> error + bytes" where
  "deriveKey l password salt = scrypt_Key l password salt 32768 8 1 32"

definition KeyHash :: "lib \<Rightarrow> bytes \<Rightarrow> bytes \<Rightarrow> error + string" where
  "KeyHash l password salt =
     (case deriveKey l password salt of
        Inl err \<Rightarrow> Inl err
      | Inr keyData \<Rightarrow> Inr (hex_EncodeToString l (sha256_Sum256 l keyData)))"

definition Encrypt :: "lib \<Rightarrow> bytes \<Rightarrow> bytes \<Rightarrow> bytes \<Rightarrow> bytes \<Rightarrow> bytes result" where
  "Encrypt l rnd input password salt =
     (case deriveKey l password salt of
        Inl err \<Rightarrow> Err err
      | Inr key \<Rightarrow>
     (case io_ReadFull rnd nonceSize of
        Inl err \<Rightarrow> Err err
      | Inr nonce \<Rightarrow>
     (case aes_NewCipher l key of
        Inl err \<Rightarrow> Err err
      | Inr block \<Rightarrow>
     (case cipher_NewGCM l block of
        Inl err \<Rightarrow> Err err
      | Inr aesgcm \<Rightarrow>
          (let ciphertext = gcm_Seal l aesgcm nonce input;
               encrypted0 = replicate (nonceSize + length ciphertext) 0;
               encrypted1 = go_copy encrypted0 nonce;
               encrypted2 = take nonceSize encrypted1
                              @ go_copy (drop nonceSize encrypted1) ciphertext
           in Ok encrypted2)))))"

definition Decrypt :: "lib \<Rightarrow> bytes \<Rightarrow> bytes \<Rightarrow> bytes \<Rightarrow> bytes result" where
  "Decrypt l encrypted password salt =
     (if length encrypted = 0 then Ok []
      else
     (case deriveKey l password salt of
        Inl err \<Rightarrow> Err err
      | Inr key \<Rightarrow>
     (case aes_NewCipher l key of
        Inl err \<Rightarrow> Err err
      | Inr block \<Rightarrow>
     (case cipher_NewGCM l block of
        Inl err \<Rightarrow> Err err
      | Inr aesgcm \<Rightarrow>
          (if length encrypted < nonceSize then Panic slice_panic
           else
             (let nonce = take nonceSize encrypted;
                  ciphertext = drop nonceSize encrypted
              in case gcm_Open l aesgcm nonce ciphertext of
                   Inl err \<Rightarrow> Err err
                 | Inr plaintext \<Rightarrow> Ok plaintext))))))"

definition DecryptString :: "lib \<Rightarrow> string \<Rightarrow> bytes \<Rightarrow> bytes \<Rightarrow> string result" where
  "DecryptString l encryptedString password salt =
     (case hex_DecodeString l encryptedString of
        Inl err \<Rightarrow> Err err
      | Inr encrypted \<Rightarrow>
     (case Decrypt l encrypted password salt of
        Err err \<Rightarrow> Err err
      | Panic p \<Rightarrow> Panic p
      | Ok decrypted \<Rightarrow> Ok (string_of_bytes decrypted)))"

section \<open>The socket (package api)\<close>

text \<open>
  The websocket connection is a library object. Its model holds the frames the peer
  delivers before the read side fails, the frames written so far, and the number of
  writes that succeed before the write side fails.
\<close>

record websocket_Conn =
  inbound :: "bytes list"
  outbound :: "wire_frame list"
  writes_left :: nat

definition ws_ReadMessage :: "websocket_Conn \<Rightarrow> error + (bytes \<times> websocket_Conn)" where
  "ws_ReadMessage c =
     (case inbound c of
        [] \<Rightarrow> Inl (LibError ''websocket: read failed'')
      | msg # rest \<Rightarrow> Inr (msg, c\<lparr>inbound := rest\<rparr>))"

definition ws_Write :: "websocket_Conn \<Rightarrow> wire_frame \<Rightarrow> error + websocket_Conn" where
  "ws_Write c f =
     (if writes_left c = 0 then Inl (LibError ''websocket: write failed'')
      else Inr (c\<lparr>outbound := outbound c @ [f], writes_left := writes_left c - 1\<rparr>))"

record VaultInfo =
  vault_Id :: string
  vault_Name :: string
  vault_Password :: string
  vault_Salt :: string
  vault_Host :: string

record ObsidianSocketContext =
  ws :: websocket_Conn
  Vault :: VaultInfo
  authToken :: string
  keyhash :: string
  filteredQueue :: "bytes list"

type_synonym 'a io = "'a result \<times> ObsidianSocketContext"

definition sendMessage :: "lib \<Rightarrow> ObsidianSocketContext \<Rightarrow> wire_message \<Rightarrow> unit io" where
  "sendMessage l ctx msg =
     (case ws_Write (ws ctx) (TextFrame msg) of
        Inl err \<Rightarrow> (Err (ErrorfWrap ''could not send message'' err), ctx)
      | Inr c \<Rightarrow>
          (case json_Marshal l msg of
             Inl err \<Rightarrow> (Err (ErrorfWrap ''could not marshal message'' err), ctx\<lparr>ws := c\<rparr>)
           | Inr jsonMsg \<Rightarrow> (Ok (), ctx\<lparr>ws := c\<rparr>)))"

definition sendBinary :: "ObsidianSocketContext \<Rightarrow> bytes \<Rightarrow> unit io" where
  "sendBinary ctx msg =
     (case ws_Write (ws ctx) (BinaryFrame msg) of
        Inl err \<Rightarrow> (Err (ErrorfWrap ''could not send message'' err), ctx)
      | Inr c \<Rightarrow> (Ok (), ctx\<lparr>ws := c\<rparr>))"

definition nextMessage :: "ObsidianSocketContext \<Rightarrow> bytes io" where
  "nextMessage ctx =
     (case ws_ReadMessage (ws ctx) of
        Inl err \<Rightarrow> (Err (ErrorfWrap ''error reading message'' err), ctx)
      | Inr (msg, c) \<Rightarrow> (Ok msg, ctx\<lparr>ws := c\<rparr>))"

section \<open>Matching and buffering frames (api/filter.go)\<close>

text \<open>
  The first loop of \<^verbatim>\<open>nextMessageMatching\<close>: the index \<open>i\<close> runs over the queue; at
  the first match the queue loses that element, by the three slice expressions of the
  source.
\<close>

function scanQueue :: "(bytes \<Rightarrow> bool) \<Rightarrow> bytes list \<Rightarrow> nat \<Rightarrow> (bytes \<times> bytes list) option" where
  "scanQueue matcher queue i =
     (if i < length queue then
        (if matcher (queue ! i) then
           Some (queue ! i,
                 (if i = 0 then drop 1 queue
                  else if i = length queue - 1 then take i queue
                  else take i queue @ drop (i + 1) queue))
         else scanQueue matcher queue (i + 1))
      else None)"
  by pat_completeness auto
termination
  by (relation "measure (\<lambda>(matcher, queue, i). length queue - i)") auto

declare scanQueue.simps [simp del]

text \<open>The second loop: read until a frame matches, queueing the others.\<close>

function readLoop :: "(bytes \<Rightarrow> bool) \<Rightarrow> ObsidianSocketContext \<Rightarrow> bytes io" where
  "readLoop matcher ctx =
     (case nextMessage ctx of
        (Err err, ctx') \<Rightarrow> (Err (ErrorfWrap ''could not read message'' err), ctx')
      | (Panic p, ctx') \<Rightarrow> (Panic p, ctx')
      | (Ok msg, ctx') \<Rightarrow>
          (if matcher msg then (Ok msg, ctx')
           else readLoop matcher (ctx'\<lparr>filteredQueue := filteredQueue ctx' @ [msg]\<rparr>)))"
  by pat_completeness auto
termination
  by (relation "measure (\<lambda>(matcher, ctx). length (inbound (ws ctx)))")
     (auto simp: nextMessage_def ws_ReadMessage_def split: list.splits)

declare readLoop.simps [simp del]

definition nextMessageMatching :: "(bytes \<Rightarrow> bool) \<Rightarrow> ObsidianSocketContext \<Rightarrow> bytes io" where
  "nextMessageMatching matcher ctx =
     (case scanQueue matcher (filteredQueue ctx) 0 of
        Some (msg, queue') \<Rightarrow> (Ok msg, ctx\<lparr>filteredQueue := queue'\<rparr>)
      | None \<Rightarrow> readLoop matcher ctx)"

definition nextMessageMatchingJson ::
  "lib \<Rightarrow> ((string \<rightharpoonup> json_value) \<Rightarrow> bool) \<Rightarrow> ObsidianSocketContext \<Rightarrow> bytes io" where
  "nextMessageMatchingJson l matcher ctx =
     nextMessageMatching
       (\<lambda>msg. case json_Unmarshal_map l msg of Inl err \<Rightarrow> False | Inr msgMap \<Rightarrow> matcher msgMap)
       ctx"

text \<open>
  \<open>msgMap[key]\<close> on a Go map gives the zero value, \<^verbatim>\<open>nil\<close>, for a missing key.
\<close>

definition json_index :: "(string \<rightharpoonup> json_value) \<Rightarrow> string \<Rightarrow> json_value" where
  "json_index msgMap key = (case msgMap key of None \<Rightarrow> JNull | Some v \<Rightarrow> v)"

definition nextMessageWithJsonKeys :: "lib \<Rightarrow> string list \<Rightarrow> ObsidianSocketContext \<Rightarrow> bytes io" where
  "nextMessageWithJsonKeys l keys ctx =
     nextMessageMatchingJson l (\<lambda>msgMap. list_all (\<lambda>key. msgMap key \<noteq> None) keys) ctx"

definition nextMessageWithJsonValue ::
  "lib \<Rightarrow> string \<Rightarrow> json_value \<Rightarrow> ObsidianSocketContext \<Rightarrow> bytes io" where
  "nextMessageWithJsonValue l key v ctx =
     nextMessageMatchingJson l (\<lambda>msgMap. if json_index msgMap key \<noteq> v then False else True) ctx"

definition nextBinaryMessage :: "lib \<Rightarrow> ObsidianSocketContext \<Rightarrow> bytes io" where
  "nextBinaryMessage l ctx =
     nextMessageMatching
       (\<lambda>msg. case json_Unmarshal_map l msg of Inl err \<Rightarrow> True | Inr msgMap \<Rightarrow> False)
       ctx"




section \<open>The protocol exchanges (package api)\<close>





definition GetSizeConfig :: "lib \<Rightarrow> ObsidianSocketContext \<Rightarrow> (int \<times> int) io" where
  "GetSizeConfig l ctx =
     (case sendMessage l ctx (JOp ''size'') of
        (Err err, ctx1) \<Rightarrow> (Err (ErrorfWrap ''could not send size message'' err), ctx1)
      | (Panic p, ctx1) \<Rightarrow> (Panic p, ctx1)
      | (Ok u, ctx1) \<Rightarrow>
     (case nextMessageWithJsonKeys l [''size'', ''limit''] ctx1 of
        (Err err, ctx2) \<Rightarrow> (Err (ErrorfWrap ''error reading size message'' err), ctx2)
      | (Panic p, ctx2) \<Rightarrow> (Panic p, ctx2)
      | (Ok response, ctx2) \<Rightarrow>
     (case json_Unmarshal_SizeResponse l response of
        Inl err \<Rightarrow> (Err (ErrorfWrap ''error unmarshalling size message'' err), ctx2)
      | Inr sizeResponse \<Rightarrow> (Ok sizeResponse, ctx2))))"

text \<open>
  The piece loop of \<^verbatim>\<open>PullFile\<close>: \<open>n\<close> is the number of iterations left, \<open>data\<close>
  the bytes appended so far.
\<close>

fun readPieces :: "lib \<Rightarrow> ObsidianSocketContext \<Rightarrow> nat \<Rightarrow> bytes \<Rightarrow> bytes io" where
  "readPieces l ctx 0 data = (Ok data, ctx)"
| "readPieces l ctx (Suc n) data =
     (case nextBinaryMessage l ctx of
        (Err err, ctx') \<Rightarrow> (Err (ErrorfWrap ''error reading piece'' err), ctx')
      | (Panic p, ctx') \<Rightarrow> (Panic p, ctx')
      | (Ok message, ctx') \<Rightarrow> readPieces l ctx' n (data @ message))"

text \<open>
  What \<^verbatim>\<open>PullFile\<close> does with the concatenated pieces: the size check, the decryption and
  the hash check, in the order of the source.
\<close>

definition checkPulled ::
  "lib \<Rightarrow> VaultInfo \<Rightarrow> PullHeaderMessage \<Rightarrow> string \<Rightarrow> bytes \<Rightarrow> bytes result" where
  "checkPulled l vault headerMessage expectedEncryptedHash data =
     (if int (length data) \<noteq> header_Size headerMessage then
        Err (Errorf ''decrypted data size does not match size in header'')
      else
     (case Decrypt l data (bytes_of_string (vault_Password vault))
                  (bytes_of_string (vault_Salt vault)) of
        Err err \<Rightarrow> Err (ErrorfWrap ''could not decrypt data'' err)
      | Panic p \<Rightarrow> Panic p
      | Ok decryptedData \<Rightarrow>
          (let contentSum = sha256_Sum256 l decryptedData
           in case DecryptString l expectedEncryptedHash
                     (bytes_of_string (vault_Password vault))
                     (bytes_of_string (vault_Salt vault)) of
                Err err \<Rightarrow> Err (ErrorfWrap ''could not decrypt expected hash'' err)
              | Panic p \<Rightarrow> Panic p
              | Ok decryptedExpectedHash \<Rightarrow>
                  (case hex_DecodeString l decryptedExpectedHash of
                     Inl err \<Rightarrow> Err (ErrorfWrap ''could not decode expected hash'' err)
                   | Inr expectedHashBytes \<Rightarrow>
                       (if contentSum \<noteq> expectedHashBytes then
                          Err (Errorf ''decrypted content hash does not match expected hash'')
                        else Ok decryptedData)))))"

definition PullFile :: "lib \<Rightarrow> ObsidianSocketContext \<Rightarrow> int \<Rightarrow> string \<Rightarrow> bytes io" where
  "PullFile l ctx uid expectedEncryptedHash =
     (let pullMsg = \<lparr>pull_Op = ''pull'', pull_UID = uid\<rparr>
      in case sendMessage l ctx (JPull pullMsg) of
        (Err err, ctx1) \<Rightarrow> (Err (ErrorfWrap ''could not send pull message'' err), ctx1)
      | (Panic p, ctx1) \<Rightarrow> (Panic p, ctx1)
      | (Ok u, ctx1) \<Rightarrow>
     (case nextMessageWithJsonKeys l [''hash'', ''size'', ''pieces''] ctx1 of
        (Err err, ctx2) \<Rightarrow> (Err (ErrorfWrap ''error reading header'' err), ctx2)
      | (Panic p, ctx2) \<Rightarrow> (Panic p, ctx2)
      | (Ok header, ctx2) \<Rightarrow>
     (case json_Unmarshal_PullHeader l header of
        Inl err \<Rightarrow> (Err (ErrorfWrap ''could not unmarshal pull header message'' err), ctx2)
      | Inr headerMessage \<Rightarrow>
     (case readPieces l ctx2 (nat (header_Pieces headerMessage)) [] of
        (Err err, ctx3) \<Rightarrow> (Err err, ctx3)
      | (Panic p, ctx3) \<Rightarrow> (Panic p, ctx3)
      | (Ok data, ctx3) \<Rightarrow>
          (checkPulled l (Vault ctx3) headerMessage expectedEncryptedHash data, ctx3)))))"

text \<open>
  \<^verbatim>\<open>PushFile\<close> encrypts three times; \<open>rnd1\<close>, \<open>rnd2\<close> and \<open>rnd3\<close> are what the random
  reader gives to the three calls.
\<close>

definition PushFile ::
  "lib \<Rightarrow> bytes \<Rightarrow> bytes \<Rightarrow> bytes \<Rightarrow> ObsidianSocketContext \<Rightarrow>
     string \<Rightarrow> string \<Rightarrow> int \<Rightarrow> int \<Rightarrow> bool \<Rightarrow> bool \<Rightarrow> bytes \<Rightarrow> unit io" where
  "PushFile l rnd1 rnd2 rnd3 ctx path extension ctime mtime folder deleted content =
     (let password = bytes_of_string (vault_Password (Vault ctx));
          salt = bytes_of_string (vault_Salt (Vault ctx))
      in case Encrypt l rnd1 content password salt of
        Err err \<Rightarrow> (Err (ErrorfWrap ''could not encrypt content'' err), ctx)
      | Panic p \<Rightarrow> (Panic p, ctx)
      | Ok encryptedContent \<Rightarrow>
     (case Encrypt l rnd2 (bytes_of_string path) password salt of
        Err err \<Rightarrow> (Err (ErrorfWrap ''could not encrypt path'' err), ctx)
      | Panic p \<Rightarrow> (Panic p, ctx)
      | Ok encryptedPath \<Rightarrow>
     (let contentSum = sha256_Sum256 l content
      in case Encrypt l rnd3 contentSum password salt of
        Err err \<Rightarrow> (Err (ErrorfWrap ''could not encrypt content sum'' err), ctx)
      | Panic p \<Rightarrow> (Panic p, ctx)
      | Ok encryptedContentSum \<Rightarrow>
     (let message = \<lparr>out_Op = ''push'',
                      out_Path = hex_EncodeToString l encryptedPath,
                      out_Ext = extension,
                      out_Hash = hex_EncodeToString l encryptedContentSum,
                      out_Ctime = ctime, out_Mtime = mtime,
                      out_Folder = folder, out_Deleted = deleted,
                      out_Size = int (length encryptedContent),
                      out_Pieces = 1\<rparr>
      in case sendMessage l ctx (JPush message) of
        (Err err, ctx1) \<Rightarrow> (Err (ErrorfWrap ''could not send push message'' err), ctx1)
      | (Panic p, ctx1) \<Rightarrow> (Panic p, ctx1)
      | (Ok u, ctx1) \<Rightarrow>
     (case nextMessageWithJsonValue l ''res'' (JString ''next'') ctx1 of
        (Err err, ctx2) \<Rightarrow> (Err (ErrorfWrap ''error reading next response'' err), ctx2)
      | (Panic p, ctx2) \<Rightarrow> (Panic p, ctx2)
      | (Ok response, ctx2) \<Rightarrow>
     (case json_Unmarshal_Res l response of
        Inl err \<Rightarrow> (Err (ErrorfWrap ''could not unmarshal next response'' err), ctx2)
      | Inr nextResponse \<Rightarrow>
     (if nextResponse \<noteq> ''next'' then (Err (Errorf ''next response is not next''), ctx2)
      else
     (case sendBinary ctx2 encryptedContent of
        (Err err, ctx3) \<Rightarrow> (Err (ErrorfWrap ''could not send encrypted content'' err), ctx3)
      | (Panic p, ctx3) \<Rightarrow> (Panic p, ctx3)
      | (Ok u, ctx3) \<Rightarrow>
     (case nextMessageWithJsonValue l ''op'' (JString ''push'') ctx3 of
        (Err err, ctx4) \<Rightarrow> (Err (ErrorfWrap ''error reading push response'' err), ctx4)
      | (Panic p, ctx4) \<Rightarrow> (Panic p, ctx4)
      | (Ok response2, ctx4) \<Rightarrow>
     (case json_Unmarshal_IncomingPush l response2 of
        Inl err \<Rightarrow> (Err (ErrorfWrap ''could not unmarshal push response'' err), ctx4)
      | Inr pushResponse \<Rightarrow>
     (case nextMessageWithJsonValue l ''op'' (JString ''ok'') ctx4 of
        (Err err, ctx5) \<Rightarrow> (Err (ErrorfWrap ''error reading ok response'' err), ctx5)
      | (Panic p, ctx5) \<Rightarrow> (Panic p, ctx5)
      | (Ok response3, ctx5) \<Rightarrow>
     (case json_Unmarshal_Op l response3 of
        Inl err \<Rightarrow> (Err (ErrorfWrap ''could not unmarshal ok response'' err), ctx5)
      | Inr okResponse \<Rightarrow>
          (if okResponse \<noteq> ''ok'' then (Err (Errorf ''ok response is not ok''), ctx5)
           else (Ok (), ctx5))))))))))))))"

section \<open>The sync state (package sync)\<close>

record ObsidianRemoteEntry =
  remote_Uid :: int
  remote_EncryptedPath :: string
  remote_EncryptedHash :: string
  remote_Created :: int
  remote_Modified :: int
  remote_IsFolder :: bool

record ObsidianLocalEntry =
  local_Path :: string
  local_Created :: int
  local_Modified :: int
  local_IsFolder :: bool

text \<open>
  A Go map is an association list with distinct keys (\<open>go_map\<close>); a \<^verbatim>\<open>range\<close> loop visits
  its pairs in the order of the list, which stands for the order Go happens to choose.
  Reading a missing key gives the zero value of the entry type.
\<close>

definition go_map :: "('k \<times> 'v) list \<Rightarrow> bool" where
  "go_map m = distinct (map fst m)"

record State =
  LocalFiles :: "(string \<times> ObsidianLocalEntry) list"
  RemoteEntries :: "(string \<times> ObsidianRemoteEntry) list"
  LastSync :: int
  Size :: int
  Limit :: int

definition zeroRemoteEntry :: ObsidianRemoteEntry where
  "zeroRemoteEntry = \<lparr>remote_Uid = 0, remote_EncryptedPath = [], remote_EncryptedHash = [],
                       remote_Created = 0, remote_Modified = 0, remote_IsFolder = False\<rparr>"

definition zeroLocalEntry :: ObsidianLocalEntry where
  "zeroLocalEntry = \<lparr>local_Path = [], local_Created = 0, local_Modified = 0,
                      local_IsFolder = False\<rparr>"

definition UpdateWithPush :: "State \<Rightarrow> IncomingPushMessage \<Rightarrow> State" where
  "UpdateWithPush s push =
     (if push_Deleted push then
        s\<lparr>RemoteEntries := AList.delete (push_EncryptedPath push) (RemoteEntries s)\<rparr>
      else
        s\<lparr>RemoteEntries :=
             AList.update (push_EncryptedPath push)
               \<lparr>remote_Uid = push_Uid push,
                remote_EncryptedPath = push_EncryptedPath push,
                remote_EncryptedHash = push_EncryptedHash push,
                remote_Created = push_Ctime push,
                remote_Modified = push_Mtime push,
                remote_IsFolder = push_Folder push\<rparr>
               (RemoteEntries s)\<rparr>)"

section \<open>The reconciliation pass: the decisions\<close>

text \<open>The five slices \<^verbatim>\<open>SyncFiles\<close> fills before it acts.\<close>

record Decisions =
  pullPaths :: "string list"
  pushPaths :: "string list"
  newFolderPaths :: "string list"
  deletePaths :: "string list"
  conflictPaths :: "string list"

definition noDecisions :: Decisions where
  "noDecisions = \<lparr>pullPaths = [], pushPaths = [], newFolderPaths = [], deletePaths = [],
                   conflictPaths = []\<rparr>"

text \<open>The body of the loop over \<^verbatim>\<open>s.RemoteEntries\<close>.\<close>

definition remoteStep :: "State \<Rightarrow> string \<Rightarrow> ObsidianRemoteEntry \<Rightarrow> Decisions \<Rightarrow> Decisions" where
  "remoteStep s path remoteFile d =
     (case map_of (LocalFiles s) path of
        Some localFile \<Rightarrow>
          (let d1 =
             (if local_IsFolder localFile \<noteq> remote_IsFolder remoteFile then
                (let d0 = d\<lparr>deletePaths := deletePaths d @ [path]\<rparr>
                 in if local_IsFolder localFile
                    then d0\<lparr>pullPaths := pullPaths d0 @ [path]\<rparr>
                    else d0\<lparr>newFolderPaths := newFolderPaths d0 @ [path]\<rparr>)
              else d)
           in if \<not> local_IsFolder localFile then
                (let d2 =
                   (if local_Modified localFile < remote_Modified remoteFile
                    then d1\<lparr>pullPaths := pullPaths d1 @ [path]\<rparr> else d1)
                 in if local_Modified localFile > remote_Modified remoteFile
                    then d2\<lparr>conflictPaths := conflictPaths d2 @ [path]\<rparr> else d2)
              else d1)
      | None \<Rightarrow>
          (if remote_IsFolder remoteFile
           then d\<lparr>newFolderPaths := newFolderPaths d @ [path]\<rparr>
           else d\<lparr>pullPaths := pullPaths d @ [path]\<rparr>))"

fun remoteLoop :: "State \<Rightarrow> (string \<times> ObsidianRemoteEntry) list \<Rightarrow> Decisions \<Rightarrow> Decisions" where
  "remoteLoop s [] d = d"
| "remoteLoop s ((path, remoteFile) # rest) d = remoteLoop s rest (remoteStep s path remoteFile d)"

text \<open>
  The body of the loop over \<^verbatim>\<open>s.LocalFiles\<close>. When the path is not in the remote map,
  \<open>remoteFile\<close> is the zero entry, as the two-value map read of the source leaves it.
\<close>

definition localStep :: "State \<Rightarrow> string \<Rightarrow> ObsidianLocalEntry \<Rightarrow> Decisions \<Rightarrow> Decisions" where
  "localStep s path localFile d =
     (case map_of (RemoteEntries s) path of
        None \<Rightarrow>
          (let remoteFile = zeroRemoteEntry;
               d1 = (if local_Modified localFile > remote_Modified remoteFile
                     then d\<lparr>pushPaths := pushPaths d @ [path]\<rparr> else d)
           in if local_Created localFile < LastSync s
              then d1\<lparr>deletePaths := deletePaths d1 @ [path]\<rparr> else d1)
      | Some remoteFile \<Rightarrow> d)"

fun localLoop :: "State \<Rightarrow> (string \<times> ObsidianLocalEntry) list \<Rightarrow> Decisions \<Rightarrow> Decisions" where
  "localLoop s [] d = d"
| "localLoop s ((path, localFile) # rest) d = localLoop s rest (localStep s path localFile d)"

definition decide :: "State \<Rightarrow> Decisions" where
  "decide s = localLoop s (LocalFiles s) (remoteLoop s (RemoteEntries s) noDecisions)"

section \<open>The reconciliation pass: the actions\<close>

text \<open>
  Each loop of the second half of \<^verbatim>\<open>SyncFiles\<close> returns at the first error. The
  filesystem calls of the source are commented out there, so the loops only change the
  maps and talk to the server.
\<close>

definition vaultPassword :: "VaultInfo \<Rightarrow> bytes" where
  "vaultPassword vault = bytes_of_string (vault_Password vault)"

definition vaultSalt :: "VaultInfo \<Rightarrow> bytes" where
  "vaultSalt vault = bytes_of_string (vault_Salt vault)"

fun reportConflicts :: "lib \<Rightarrow> VaultInfo \<Rightarrow> string list \<Rightarrow> unit result" where
  "reportConflicts l vault [] = Ok ()"
| "reportConflicts l vault (path # rest) =
     (case DecryptString l path (vaultPassword vault) (vaultSalt vault) of
        Err err \<Rightarrow> Err (ErrorfWrap ''error decrypting path'' err)
      | Panic p \<Rightarrow> Panic p
      | Ok decryptedPath \<Rightarrow> reportConflicts l vault rest)"

fun runDeletes :: "lib \<Rightarrow> VaultInfo \<Rightarrow> string list \<Rightarrow> State \<Rightarrow> unit result \<times> State" where
  "runDeletes l vault [] s = (Ok (), s)"
| "runDeletes l vault (path # rest) s =
     (case DecryptString l path (vaultPassword vault) (vaultSalt vault) of
        Err err \<Rightarrow> (Err (ErrorfWrap ''error decrypting path'' err), s)
      | Panic p \<Rightarrow> (Panic p, s)
      | Ok decryptedPath \<Rightarrow>
          runDeletes l vault rest (s\<lparr>LocalFiles := AList.delete path (LocalFiles s)\<rparr>))"

fun runNewFolders :: "lib \<Rightarrow> VaultInfo \<Rightarrow> string list \<Rightarrow> State \<Rightarrow> unit result \<times> State" where
  "runNewFolders l vault [] s = (Ok (), s)"
| "runNewFolders l vault (path # rest) s =
     (case DecryptString l path (vaultPassword vault) (vaultSalt vault) of
        Err err \<Rightarrow> (Err (ErrorfWrap ''error decrypting path'' err), s)
      | Panic p \<Rightarrow> (Panic p, s)
      | Ok decryptedPath \<Rightarrow>
          runNewFolders l vault rest
            (s\<lparr>LocalFiles :=
                 AList.update path
                   \<lparr>local_Path = decryptedPath, local_Created = 0, local_Modified = 0,
                    local_IsFolder = True\<rparr>
                   (LocalFiles s)\<rparr>))"

definition remoteEntryAt :: "State \<Rightarrow> string \<Rightarrow> ObsidianRemoteEntry" where
  "remoteEntryAt s path =
     (case map_of (RemoteEntries s) path of None \<Rightarrow> zeroRemoteEntry | Some e \<Rightarrow> e)"

definition localEntryAt :: "State \<Rightarrow> string \<Rightarrow> ObsidianLocalEntry" where
  "localEntryAt s path =
     (case map_of (LocalFiles s) path of None \<Rightarrow> zeroLocalEntry | Some e \<Rightarrow> e)"

fun runPulls ::
  "lib \<Rightarrow> string list \<Rightarrow> State \<Rightarrow> ObsidianSocketContext \<Rightarrow>
     unit result \<times> State \<times> ObsidianSocketContext" where
  "runPulls l [] s ctx = (Ok (), s, ctx)"
| "runPulls l (path # rest) s ctx =
     (case DecryptString l path (vaultPassword (Vault ctx)) (vaultSalt (Vault ctx)) of
        Err err \<Rightarrow> (Err (ErrorfWrap ''error decrypting path'' err), s, ctx)
      | Panic p \<Rightarrow> (Panic p, s, ctx)
      | Ok decryptedPath \<Rightarrow>
          (let pullEntry = remoteEntryAt s path
           in case PullFile l ctx (remote_Uid pullEntry) (remote_EncryptedHash pullEntry) of
                (Err err, ctx') \<Rightarrow> (Err (ErrorfWrap ''error pulling file'' err), s, ctx')
              | (Panic p, ctx') \<Rightarrow> (Panic p, s, ctx')
              | (Ok content, ctx') \<Rightarrow>
                  runPulls l rest
                    (s\<lparr>LocalFiles :=
                         AList.update path
                           \<lparr>local_Path = decryptedPath,
                            local_Created = remote_Created pullEntry,
                            local_Modified = remote_Modified pullEntry,
                            local_IsFolder = remote_IsFolder pullEntry\<rparr>
                           (LocalFiles s)\<rparr>)
                    ctx'))"

text \<open>
  The push loop. \<open>draws k\<close> is what the random reader gives to the \<open>k\<close>-th encryption
  of the pass; the \<open>i\<close>-th push makes the encryptions \<open>3 * i\<close>, \<open>3 * i + 1\<close> and
  \<open>3 * i + 2\<close>, since a push that fails before its third encryption ends the pass.
\<close>

fun runPushes ::
  "lib \<Rightarrow> (nat \<Rightarrow> bytes) \<Rightarrow> nat \<Rightarrow> string list \<Rightarrow> State \<Rightarrow> ObsidianSocketContext \<Rightarrow>
     unit result \<times> ObsidianSocketContext" where
  "runPushes l draws i [] s ctx = (Ok (), ctx)"
| "runPushes l draws i (path # rest) s ctx =
     (let pushEntry = localEntryAt s path
      in case os_ReadFile l path of
           Inl err \<Rightarrow> (Err (ErrorfWrap ''error reading file from disk'' err), ctx)
         | Inr contents \<Rightarrow>
             (case PushFile l (draws (3 * i)) (draws (3 * i + 1)) (draws (3 * i + 2)) ctx
                     (local_Path pushEntry) ''md'' (local_Created pushEntry)
                     (local_Modified pushEntry) False False contents of
                (Err err, ctx') \<Rightarrow> (Err (ErrorfWrap ''error pushing file'' err), ctx')
              | (Panic p, ctx') \<Rightarrow> (Panic p, ctx')
              | (Ok u, ctx') \<Rightarrow> runPushes l draws (i + 1) rest s ctx'))"

text \<open>
  \<^verbatim>\<open>SyncFiles\<close>: \<open>now\<close> is \<^verbatim>\<open>time.Now().UnixNano() / 1000000\<close> at the end of the pass.
\<close>

definition SyncFiles ::
  "lib \<Rightarrow> (nat \<Rightarrow> bytes) \<Rightarrow> int \<Rightarrow> State \<Rightarrow> ObsidianSocketContext \<Rightarrow>
     unit result \<times> State \<times> ObsidianSocketContext" where
  "SyncFiles l draws now s ctx =
     (let d = decide s
      in case reportConflicts l (Vault ctx) (conflictPaths d) of
        Err err \<Rightarrow> (Err err, s, ctx)
      | Panic p \<Rightarrow> (Panic p, s, ctx)
      | Ok u \<Rightarrow>
     (case runDeletes l (Vault ctx) (deletePaths d) s of
        (Err err, s1) \<Rightarrow> (Err err, s1, ctx)
      | (Panic p, s1) \<Rightarrow> (Panic p, s1, ctx)
      | (Ok u, s1) \<Rightarrow>
     (case runNewFolders l (Vault ctx) (newFolderPaths d) s1 of
        (Err err, s2) \<Rightarrow> (Err err, s2, ctx)
      | (Panic p, s2) \<Rightarrow> (Panic p, s2, ctx)
      | (Ok u, s2) \<Rightarrow>
     (case runPulls l (pullPaths d) s2 ctx of
        (Err err, s3, ctx3) \<Rightarrow> (Err err, s3, ctx3)
      | (Panic p, s3, ctx3) \<Rightarrow> (Panic p, s3, ctx3)
      | (Ok u, s3, ctx3) \<Rightarrow>
     (case runPushes l draws 0 (pushPaths d) s3 ctx3 of
        (Err err, ctx4) \<Rightarrow> (Err err, s3, ctx4)
      | (Panic p, ctx4) \<Rightarrow> (Panic p, s3, ctx4)
      | (Ok u, ctx4) \<Rightarrow> (Ok (), s3\<lparr>LastSync := now\<rparr>, ctx4))))))"

section \<open>A small instance of the libraries\<close>

text \<open>
  \<open>demo_lib\<close> is an instance of the record \<open>lib\<close> on which the definitions can be run.
  Its sealed box is the plaintext followed by a 16-byte tag computed from the key handle
  and the nonce; its text encoding of bytes is the identity; its JSON reader knows seven
  frames by their first byte (1 and 2: \<^verbatim>\<open>res\<close> ok and next; 3: a push; 4: ready;
  5: pong; 6: a pull header with size and pieces; 7: \<^verbatim>\<open>op\<close> ok) and rejects every other
  frame, which makes that frame binary.
\<close>

definition demo_tag :: "bytes \<Rightarrow> bytes \<Rightarrow> bytes" where
  "demo_tag g nonce = take 16 (nonce @ g @ replicate 16 0)"

definition demo_Open :: "bytes \<Rightarrow> bytes \<Rightarrow> bytes \<Rightarrow> error + bytes" where
  "demo_Open g nonce c =
     (if length c < 16 \<or> drop (length c - 16) c \<noteq> demo_tag g nonce
      then Inl (LibError ''cipher: message authentication failed'')
      else Inr (take (length c - 16) c))"

definition demo_json_map :: "bytes \<Rightarrow> error + (string \<rightharpoonup> json_value)" where
  "demo_json_map f =
     (if f = [1] then Inr [''res'' \<mapsto> JString ''ok'']
      else if f = [2] then Inr [''res'' \<mapsto> JString ''next'']
      else if length f = 2 \<and> hd f = 3 then Inr [''op'' \<mapsto> JString ''push'', ''uid'' \<mapsto> JNumber (uint (f ! 1))]
      else if length f = 2 \<and> hd f = 4 then Inr [''op'' \<mapsto> JString ''ready'', ''version'' \<mapsto> JNumber (uint (f ! 1))]
      else if f = [5] then Inr [''op'' \<mapsto> JString ''pong'']
      else if length f = 3 \<and> hd f = 6 then
        Inr [''hash'' \<mapsto> JString [], ''size'' \<mapsto> JNumber (uint (f ! 1)), ''pieces'' \<mapsto> JNumber (uint (f ! 2))]
      else if f = [7] then Inr [''op'' \<mapsto> JString ''ok'']
      else Inl (LibError ''invalid character''))"

definition demo_lib :: lib where
  "demo_lib =
     \<lparr>scrypt_Key = (\<lambda>password salt N r p keyLen. Inr (take keyLen (password @ salt @ replicate keyLen 0))),
      aes_NewCipher = (\<lambda>key. Inr key),
      cipher_NewGCM = (\<lambda>block. Inr block),
      gcm_Seal = (\<lambda>g nonce plaintext. plaintext @ demo_tag g nonce),
      gcm_Open = demo_Open,
      sha256_Sum256 = (\<lambda>b. replicate 32 (word_of_nat (length b))),
      hex_EncodeToString = string_of_bytes,
      hex_DecodeString = (\<lambda>s. Inr (bytes_of_string s)),
      json_Unmarshal_map = demo_json_map,
      json_Unmarshal_Res = (\<lambda>f. if f = [1] then Inr ''ok'' else if f = [2] then Inr ''next''
                                  else case demo_json_map f of Inl e \<Rightarrow> Inl e | Inr m \<Rightarrow> Inr []),
      json_Unmarshal_Op = (\<lambda>f. if f = [7] then Inr ''ok'' else if f = [5] then Inr ''pong''
                                  else case demo_json_map f of Inl e \<Rightarrow> Inl e | Inr m \<Rightarrow> Inr []),
      json_Unmarshal_IncomingPush = (\<lambda>f. case demo_json_map f of Inl e \<Rightarrow> Inl e
         | Inr m \<Rightarrow> Inr \<lparr>push_Op = ''push'', push_EncryptedPath = [], push_EncryptedHash = [],
                         push_Size = 0, push_Ctime = 0, push_Mtime = 0, push_Folder = False,
                         push_Deleted = False, push_Device = [], push_Uid = uint (f ! 1)\<rparr>),
      json_Unmarshal_Ready = (\<lambda>f. case demo_json_map f of Inl e \<Rightarrow> Inl e
         | Inr m \<Rightarrow> Inr (''ready'', uint (f ! 1))),
      json_Unmarshal_PullHeader = (\<lambda>f. case demo_json_map f of Inl e \<Rightarrow> Inl e
         | Inr m \<Rightarrow> Inr \<lparr>header_Hash = [], header_Size = uint (f ! 1), header_Pieces = uint (f ! 2)\<rparr>),
      json_Unmarshal_SizeResponse = (\<lambda>f. Inr (0, 0)),
      json_Marshal = (\<lambda>m. Inr []),
      os_ReadFile = (\<lambda>path. Inr (bytes_of_string path))\<rparr>"

section \<open>Facts about package crypto\<close>

lemma Encrypt_layout:
  assumes "deriveKey l password salt = Inr key"
    and "aes_NewCipher l key = Inr block"
    and "cipher_NewGCM l block = Inr aesgcm"
    and "12 \<le> length rnd"
  shows "Encrypt l rnd input password salt
           = Ok (take 12 rnd @ gcm_Seal l aesgcm (take 12 rnd) input)"
  using assms
  by (simp add: Encrypt_def io_ReadFull_def nonceSize_def go_copy_def Let_def min_def)

lemma Decrypt_Encrypt:
  assumes key: "deriveKey l password salt = Inr key"
    and block: "aes_NewCipher l key = Inr block"
    and aead: "cipher_NewGCM l block = Inr aesgcm"
    and opn: "gcm_Open l aesgcm (take 12 rnd) (gcm_Seal l aesgcm (take 12 rnd) p) = Inr p"
    and rnd: "12 \<le> length rnd"
    and enc: "Encrypt l rnd p password salt = Ok c"
  shows "Decrypt l c password salt = Ok p"
proof -
  have c: "c = take 12 rnd @ gcm_Seal l aesgcm (take 12 rnd) p"
    using Encrypt_layout[OF key block aead rnd, of p] enc by simp
  have len: "length (take 12 rnd) = 12" using rnd by simp
  have "take 12 c = take 12 rnd" "drop 12 c = gcm_Seal l aesgcm (take 12 rnd) p"
    unfolding c using len by simp_all
  moreover have "length c \<noteq> 0" "\<not> length c < 12" unfolding c using len by simp_all
  ultimately show ?thesis
    using key block aead opn by (simp add: Decrypt_def nonceSize_def Let_def)
qed

lemma demo_tag_length: "length (demo_tag g nonce) = 16"
  by (simp add: demo_tag_def)

lemma demo_aead: "demo_Open g nonce (p @ demo_tag g nonce) = Inr p"
  by (simp add: demo_Open_def demo_tag_length)

lemma demo_seal_open:
  "gcm_Open demo_lib g nonce (gcm_Seal demo_lib g nonce p) = Inr p"
  by (simp add: demo_lib_def demo_aead)

lemma demo_NewCipher: "aes_NewCipher demo_lib key = Inr key"
  by (simp add: demo_lib_def)

lemma demo_NewGCM: "cipher_NewGCM demo_lib block = Inr block"
  by (simp add: demo_lib_def)

lemma demo_deriveKey: "deriveKey demo_lib [] [] = Inr (replicate 32 0)"
  by (simp add: deriveKey_def demo_lib_def)

text \<open>
  Claim C2. For every payload \<open>p\<close> (empty or not) and every password and salt,
  decrypting what \<open>Encrypt\<close> returns gives \<open>p\<close> back; and two encryptions of the same
  \<open>p\<close> whose nonce draws differ give different ciphertexts that both decrypt to \<open>p\<close>.
  The library calls are parameters, so their documented behaviour is assumed: key
  derivation and the construction of the cipher succeed, the random reader gives the 12
  bytes of a nonce (\<open>12 \<le> length rnd\<close>), and opening a box sealed under the same key and
  nonce returns the plaintext. Two independent draws are two draws whose 12 bytes differ.
\<close>

theorem Encrypt_Decrypt_roundtrip:
  assumes key: "deriveKey l password salt = Inr key"
    and block: "aes_NewCipher l key = Inr block"
    and aead: "cipher_NewGCM l block = Inr aesgcm"
    and opn: "\<And>nonce. length nonce = 12 \<Longrightarrow>
                gcm_Open l aesgcm nonce (gcm_Seal l aesgcm nonce p) = Inr p"
    and rnd1: "12 \<le> length rnd1"
  shows "(\<exists>c. Encrypt l rnd1 p password salt = Ok c \<and> Decrypt l c password salt = Ok p)
       \<and> (\<forall>rnd2. 12 \<le> length rnd2 \<and> take 12 rnd2 \<noteq> take 12 rnd1 \<longrightarrow>
            (\<exists>c1 c2. Encrypt l rnd1 p password salt = Ok c1
                   \<and> Encrypt l rnd2 p password salt = Ok c2
                   \<and> c1 \<noteq> c2
                   \<and> Decrypt l c1 password salt = Ok p
                   \<and> Decrypt l c2 password salt = Ok p))"
proof -
  have rt: "\<exists>c. Encrypt l rnd p password salt = Ok c \<and> Decrypt l c password salt = Ok p
                \<and> take 12 c = take 12 rnd"
    if r: "12 \<le> length rnd" for rnd
  proof -
    let ?c = "take 12 rnd @ gcm_Seal l aesgcm (take 12 rnd) p"
    have e: "Encrypt l rnd p password salt = Ok ?c"
      by (rule Encrypt_layout[OF key block aead r])
    have "length (take 12 rnd) = 12" using r by simp
    then have o: "gcm_Open l aesgcm (take 12 rnd) (gcm_Seal l aesgcm (take 12 rnd) p) = Inr p"
      by (rule opn)
    have "Decrypt l ?c password salt = Ok p"
      by (rule Decrypt_Encrypt[OF key block aead o r e])
    moreover have "take 12 ?c = take 12 rnd" using r by simp
    ultimately show ?thesis using e by blast
  qed
  have first: "\<exists>c. Encrypt l rnd1 p password salt = Ok c \<and> Decrypt l c password salt = Ok p"
    using rt[OF rnd1] by blast
  have second: "\<exists>c1 c2. Encrypt l rnd1 p password salt = Ok c1
                   \<and> Encrypt l rnd2 p password salt = Ok c2
                   \<and> c1 \<noteq> c2
                   \<and> Decrypt l c1 password salt = Ok p
                   \<and> Decrypt l c2 password salt = Ok p"
    if r2: "12 \<le> length rnd2" and ne: "take 12 rnd2 \<noteq> take 12 rnd1" for rnd2
  proof -
    obtain c1 where c1: "Encrypt l rnd1 p password salt = Ok c1"
      "Decrypt l c1 password salt = Ok p" "take 12 c1 = take 12 rnd1"
      using rt[OF rnd1] by blast
    obtain c2 where c2: "Encrypt l rnd2 p password salt = Ok c2"
      "Decrypt l c2 password salt = Ok p" "take 12 c2 = take 12 rnd2"
      using rt[OF r2] by blast
    have "c1 \<noteq> c2" using c1(3) c2(3) ne by auto
    with c1 c2 show ?thesis by blast
  qed
  show ?thesis using first second by blast
qed

text \<open>The round trip on \<open>demo_lib\<close>, with the nonces 7,...,7 and 9,...,9.\<close>

theorem Encrypt_Decrypt_roundtrip_witness:
  "(\<exists>c. Encrypt demo_lib (replicate 12 7) [1, 2, 3] [] [] = Ok c \<and> Decrypt demo_lib c [] [] = Ok [1, 2, 3])
   \<and> (\<exists>c1 c2. Encrypt demo_lib (replicate 12 7) [1, 2, 3] [] [] = Ok c1
            \<and> Encrypt demo_lib (replicate 12 9) [1, 2, 3] [] [] = Ok c2
            \<and> c1 \<noteq> c2
            \<and> Decrypt demo_lib c1 [] [] = Ok [1, 2, 3]
            \<and> Decrypt demo_lib c2 [] [] = Ok [1, 2, 3])"
proof -
  have k: "deriveKey demo_lib [] [] = Inr (replicate 32 0)" by (rule demo_deriveKey)
  have b: "aes_NewCipher demo_lib (replicate 32 0) = Inr (replicate 32 0)"
    by (rule demo_NewCipher)
  have g: "cipher_NewGCM demo_lib (replicate 32 0) = Inr (replicate 32 0)"
    by (rule demo_NewGCM)
  have o: "\<And>nonce. length nonce = 12 \<Longrightarrow>
     gcm_Open demo_lib (replicate 32 0) nonce (gcm_Seal demo_lib (replicate 32 0) nonce [1, 2, 3]) = Inr [1, 2, 3]"
    by (rule demo_seal_open)
  have r: "12 \<le> length (replicate 12 (7 :: byte))" by simp
  note t = Encrypt_Decrypt_roundtrip[OF k b g o r]
  have r2: "12 \<le> length (replicate 12 (9 :: byte)) \<and> take 12 (replicate 12 (9 :: byte)) \<noteq> take 12 (replicate 12 7)"
    by simp
  from t r2 show ?thesis by blast
qed

text \<open>
  Claim C3. \<open>Decrypt\<close> is claimed never to panic, whatever the input. The source guards
  the empty input only: on an input of 1 to 11 bytes, once the key and the cipher are
  built, the slice expressions \<^verbatim>\<open>encrypted[:nonceSize]\<close> and \<^verbatim>\<open>encrypted[nonceSize:]\<close>
  are out of range and the function panics instead of returning an error.
\<close>

theorem Decrypt_short_input_panics:
  assumes "deriveKey l password salt = Inr key"
    and "aes_NewCipher l key = Inr block"
    and "cipher_NewGCM l block = Inr aesgcm"
    and "0 < length encrypted" and "length encrypted < 12"
  shows "Decrypt l encrypted password salt = Panic slice_panic"
  using assms by (simp add: Decrypt_def nonceSize_def)

text \<open>On \<open>demo_lib\<close>, the one-byte input 1 panics.\<close>

theorem Decrypt_short_input_panics_witness:
  "Decrypt demo_lib [1] [] [] = Panic ''runtime error: slice bounds out of range''"
proof -
  have "Decrypt demo_lib [1] [] [] = Panic slice_panic"
    by (rule Decrypt_short_input_panics[OF demo_deriveKey demo_NewCipher demo_NewGCM]) simp_all
  then show ?thesis by (simp add: slice_panic_def)
qed

section \<open>Facts about the decisions\<close>

text \<open>What one visit of each loop adds to each slice.\<close>

definition kindDiffers :: "State \<Rightarrow> string \<Rightarrow> ObsidianRemoteEntry \<Rightarrow> bool" where
  "kindDiffers s path remoteFile =
     (case map_of (LocalFiles s) path of
        None \<Rightarrow> False
      | Some localFile \<Rightarrow> local_IsFolder localFile \<noteq> remote_IsFolder remoteFile)"

definition addsPull :: "State \<Rightarrow> string \<Rightarrow> ObsidianRemoteEntry \<Rightarrow> bool" where
  "addsPull s path remoteFile =
     (case map_of (LocalFiles s) path of
        None \<Rightarrow> \<not> remote_IsFolder remoteFile
      | Some localFile \<Rightarrow>
          (local_IsFolder localFile \<and> \<not> remote_IsFolder remoteFile)
          \<or> (\<not> local_IsFolder localFile
              \<and> local_Modified localFile < remote_Modified remoteFile))"

definition addsNewFolder :: "State \<Rightarrow> string \<Rightarrow> ObsidianRemoteEntry \<Rightarrow> bool" where
  "addsNewFolder s path remoteFile =
     (case map_of (LocalFiles s) path of
        None \<Rightarrow> remote_IsFolder remoteFile
      | Some localFile \<Rightarrow> \<not> local_IsFolder localFile \<and> remote_IsFolder remoteFile)"

definition addsConflict :: "State \<Rightarrow> string \<Rightarrow> ObsidianRemoteEntry \<Rightarrow> bool" where
  "addsConflict s path remoteFile =
     (case map_of (LocalFiles s) path of
        None \<Rightarrow> False
      | Some localFile \<Rightarrow>
          \<not> local_IsFolder localFile \<and> local_Modified localFile > remote_Modified remoteFile)"

definition addsPush :: "State \<Rightarrow> string \<Rightarrow> ObsidianLocalEntry \<Rightarrow> bool" where
  "addsPush s path localFile =
     (map_of (RemoteEntries s) path = None \<and> local_Modified localFile > 0)"

definition addsDelete :: "State \<Rightarrow> string \<Rightarrow> ObsidianLocalEntry \<Rightarrow> bool" where
  "addsDelete s path localFile =
     (map_of (RemoteEntries s) path = None \<and> local_Created localFile < LastSync s)"

lemma remoteStep_sets:
  "set (pullPaths (remoteStep s p r d)) = set (pullPaths d) \<union> (if addsPull s p r then {p} else {})"
  "set (newFolderPaths (remoteStep s p r d))
     = set (newFolderPaths d) \<union> (if addsNewFolder s p r then {p} else {})"
  "set (deletePaths (remoteStep s p r d))
     = set (deletePaths d) \<union> (if kindDiffers s p r then {p} else {})"
  "set (conflictPaths (remoteStep s p r d))
     = set (conflictPaths d) \<union> (if addsConflict s p r then {p} else {})"
  "pushPaths (remoteStep s p r d) = pushPaths d"
  by (auto simp: remoteStep_def addsPull_def addsNewFolder_def kindDiffers_def addsConflict_def
        Let_def split: option.splits)

lemma localStep_sets:
  "pullPaths (localStep s p lf d) = pullPaths d"
  "newFolderPaths (localStep s p lf d) = newFolderPaths d"
  "conflictPaths (localStep s p lf d) = conflictPaths d"
  "set (pushPaths (localStep s p lf d)) = set (pushPaths d) \<union> (if addsPush s p lf then {p} else {})"
  "set (deletePaths (localStep s p lf d))
     = set (deletePaths d) \<union> (if addsDelete s p lf then {p} else {})"
  by (auto simp: localStep_def addsPush_def addsDelete_def zeroRemoteEntry_def Let_def
        split: option.splits)

lemma remoteLoop_sets:
  "set (pullPaths (remoteLoop s rs d))
     = set (pullPaths d) \<union> {p. \<exists>r. (p, r) \<in> set rs \<and> addsPull s p r}"
  "set (newFolderPaths (remoteLoop s rs d))
     = set (newFolderPaths d) \<union> {p. \<exists>r. (p, r) \<in> set rs \<and> addsNewFolder s p r}"
  "set (deletePaths (remoteLoop s rs d))
     = set (deletePaths d) \<union> {p. \<exists>r. (p, r) \<in> set rs \<and> kindDiffers s p r}"
  "set (conflictPaths (remoteLoop s rs d))
     = set (conflictPaths d) \<union> {p. \<exists>r. (p, r) \<in> set rs \<and> addsConflict s p r}"
  "pushPaths (remoteLoop s rs d) = pushPaths d"
  by (induction s rs d rule: remoteLoop.induct; auto simp: remoteStep_sets)+

lemma localLoop_sets:
  "pullPaths (localLoop s ls d) = pullPaths d"
  "newFolderPaths (localLoop s ls d) = newFolderPaths d"
  "conflictPaths (localLoop s ls d) = conflictPaths d"
  "set (pushPaths (localLoop s ls d))
     = set (pushPaths d) \<union> {p. \<exists>lf. (p, lf) \<in> set ls \<and> addsPush s p lf}"
  "set (deletePaths (localLoop s ls d))
     = set (deletePaths d) \<union> {p. \<exists>lf. (p, lf) \<in> set ls \<and> addsDelete s p lf}"
  by (induction s ls d rule: localLoop.induct; auto simp: localStep_sets)+

lemma decide_sets:
  "set (pullPaths (decide s)) = {p. \<exists>r. (p, r) \<in> set (RemoteEntries s) \<and> addsPull s p r}"
  "set (newFolderPaths (decide s))
     = {p. \<exists>r. (p, r) \<in> set (RemoteEntries s) \<and> addsNewFolder s p r}"
  "set (conflictPaths (decide s))
     = {p. \<exists>r. (p, r) \<in> set (RemoteEntries s) \<and> addsConflict s p r}"
  "set (pushPaths (decide s)) = {p. \<exists>lf. (p, lf) \<in> set (LocalFiles s) \<and> addsPush s p lf}"
  "set (deletePaths (decide s))
     = {p. \<exists>r. (p, r) \<in> set (RemoteEntries s) \<and> kindDiffers s p r}
       \<union> {p. \<exists>lf. (p, lf) \<in> set (LocalFiles s) \<and> addsDelete s p lf}"
  by (simp_all add: decide_def localLoop_sets remoteLoop_sets noDecisions_def)

lemma go_map_entry:
  "go_map m \<Longrightarrow> map_of m p = Some v \<Longrightarrow> (p, w) \<in> set m \<Longrightarrow> w = v"
  by (simp add: go_map_def)

lemma in_map_not_None: "(p, v) \<in> set m \<Longrightarrow> map_of m p \<noteq> None"
  by (metis weak_map_of_SomeI option.distinct(1))


text \<open>
  Claim C10. A path that is in both maps with a folder on both sides is put in none of the
  pull, push, delete, new-folder and conflict slices, whatever its times are.
\<close>

theorem matching_folders_no_action:
  assumes remote: "go_map (RemoteEntries s)"
    and l: "map_of (LocalFiles s) path = Some localFile"
    and r: "map_of (RemoteEntries s) path = Some remoteFile"
    and lf: "local_IsFolder localFile"
    and rf: "remote_IsFolder remoteFile"
  shows "path \<notin> set (pullPaths (decide s))
       \<and> path \<notin> set (pushPaths (decide s))
       \<and> path \<notin> set (deletePaths (decide s))
       \<and> path \<notin> set (newFolderPaths (decide s))
       \<and> path \<notin> set (conflictPaths (decide s))"
proof -
  have only: "r' = remoteFile" if "(path, r') \<in> set (RemoteEntries s)" for r'
    using go_map_entry[OF remote r that] .
  have "\<not> addsPull s path remoteFile" "\<not> addsNewFolder s path remoteFile"
       "\<not> kindDiffers s path remoteFile" "\<not> addsConflict s path remoteFile"
    using l lf rf by (simp_all add: addsPull_def addsNewFolder_def kindDiffers_def addsConflict_def)
  moreover have "\<not> addsPush s path lf'" "\<not> addsDelete s path lf'" for lf'
    using r by (simp_all add: addsPush_def addsDelete_def)
  ultimately show ?thesis
    using only by (auto simp: decide_sets)
qed

text \<open>A state with one folder on both sides, with different times: nothing is decided.\<close>

definition folderState :: State where
  "folderState =
     \<lparr>LocalFiles = [(''notes'', \<lparr>local_Path = ''notes'', local_Created = 10,
                                  local_Modified = 500, local_IsFolder = True\<rparr>)],
      RemoteEntries = [(''notes'', \<lparr>remote_Uid = 4, remote_EncryptedPath = ''notes'',
                                     remote_EncryptedHash = [], remote_Created = 20,
                                     remote_Modified = 300, remote_IsFolder = True\<rparr>)],
      LastSync = 1000, Size = 0, Limit = 0\<rparr>"

theorem matching_folders_no_action_witness:
  "decide folderState = noDecisions
   \<and> ''notes'' \<notin> set (pullPaths (decide folderState))
   \<and> ''notes'' \<notin> set (pushPaths (decide folderState))
   \<and> ''notes'' \<notin> set (deletePaths (decide folderState))
   \<and> ''notes'' \<notin> set (newFolderPaths (decide folderState))
   \<and> ''notes'' \<notin> set (conflictPaths (decide folderState))"
proof -
  have d: "decide folderState = noDecisions"
    by (simp add: decide_def folderState_def remoteStep_def localStep_def)
  have g: "go_map (RemoteEntries folderState)" by (simp add: go_map_def folderState_def)
  have l: "map_of (LocalFiles folderState) ''notes''
             = Some \<lparr>local_Path = ''notes'', local_Created = 10, local_Modified = 500,
                     local_IsFolder = True\<rparr>"
    by (simp add: folderState_def)
  have r: "map_of (RemoteEntries folderState) ''notes''
             = Some \<lparr>remote_Uid = 4, remote_EncryptedPath = ''notes'',
                     remote_EncryptedHash = [], remote_Created = 20,
                     remote_Modified = 300, remote_IsFolder = True\<rparr>"
    by (simp add: folderState_def)
  have t: "''notes'' \<notin> set (pullPaths (decide folderState))
       \<and> ''notes'' \<notin> set (pushPaths (decide folderState))
       \<and> ''notes'' \<notin> set (deletePaths (decide folderState))
       \<and> ''notes'' \<notin> set (newFolderPaths (decide folderState))
       \<and> ''notes'' \<notin> set (conflictPaths (decide folderState))"
    by (rule matching_folders_no_action[OF g l r]) simp_all
  from d t show ?thesis by blast
qed

text \<open>
  Claim C5, as amended. The pull, push and conflict slices of one pass are pairwise
  disjoint. The delete slice is not disjoint from the pull slice: a path is in both
  when it is in both maps with a folder on one side and a file on the other, which the
  source does on purpose (delete, then pull). Every path in both the delete and the pull
  slice is such a path.
\<close>

theorem decision_sets_disjoint:
  assumes remote: "go_map (RemoteEntries s)"
  shows "set (pullPaths (decide s)) \<inter> set (pushPaths (decide s)) = {}
       \<and> set (pullPaths (decide s)) \<inter> set (conflictPaths (decide s)) = {}
       \<and> set (pushPaths (decide s)) \<inter> set (conflictPaths (decide s)) = {}
       \<and> (\<forall>path \<in> set (deletePaths (decide s)) \<inter> set (pullPaths (decide s)).
            \<exists>localFile remoteFile.
              map_of (LocalFiles s) path = Some localFile
            \<and> map_of (RemoteEntries s) path = Some remoteFile
            \<and> local_IsFolder localFile \<noteq> remote_IsFolder remoteFile)"
proof -
  have a: "set (pullPaths (decide s)) \<inter> set (pushPaths (decide s)) = {}"
    by (auto simp: decide_sets addsPush_def dest: in_map_not_None)
  have b: "set (pushPaths (decide s)) \<inter> set (conflictPaths (decide s)) = {}"
    by (auto simp: decide_sets addsPush_def dest: in_map_not_None)
  have c: "set (pullPaths (decide s)) \<inter> set (conflictPaths (decide s)) = {}"
  proof -
    have False if p: "(path, r) \<in> set (RemoteEntries s)" "addsPull s path r"
      and q: "(path, r') \<in> set (RemoteEntries s)" "addsConflict s path r'" for path r r'
    proof -
      have "r' = r" using remote p(1) q(1)
        by (metis go_map_def map_of_is_SomeI option.inject)
      with p(2) q(2) show False
        by (auto simp: addsPull_def addsConflict_def split: option.splits)
    qed
    then show ?thesis by (auto simp: decide_sets)
  qed
  have d: "\<exists>localFile remoteFile.
              map_of (LocalFiles s) path = Some localFile
            \<and> map_of (RemoteEntries s) path = Some remoteFile
            \<and> local_IsFolder localFile \<noteq> remote_IsFolder remoteFile"
    if del: "path \<in> set (deletePaths (decide s))" and pull: "path \<in> set (pullPaths (decide s))"
    for path
  proof -
    from pull obtain r where r: "(path, r) \<in> set (RemoteEntries s)"
      by (auto simp: decide_sets)
    then have mr: "map_of (RemoteEntries s) path = Some r"
      using remote by (simp add: go_map_def)
    then have "\<not> addsDelete s path lf" for lf by (simp add: addsDelete_def)
    with del obtain r' where r': "(path, r') \<in> set (RemoteEntries s)" "kindDiffers s path r'"
      by (auto simp: decide_sets)
    have "r' = r" using go_map_entry[OF remote mr r'(1)] .
    with r'(2) mr show ?thesis
      by (auto simp: kindDiffers_def split: option.splits)
  qed
  from a b c d show ?thesis by blast
qed

text \<open>A local folder whose remote entry became a file.\<close>

definition kindChangeState :: State where
  "kindChangeState =
     \<lparr>LocalFiles = [(''notes'', \<lparr>local_Path = ''notes'', local_Created = 10,
                                  local_Modified = 500, local_IsFolder = True\<rparr>)],
      RemoteEntries = [(''notes'', \<lparr>remote_Uid = 4, remote_EncryptedPath = ''notes'',
                                     remote_EncryptedHash = [], remote_Created = 20,
                                     remote_Modified = 300, remote_IsFolder = False\<rparr>)],
      LastSync = 0, Size = 0, Limit = 0\<rparr>"

lemma decide_kindChangeState:
  "decide kindChangeState = noDecisions\<lparr>pullPaths := [''notes''], deletePaths := [''notes'']\<rparr>"
  by (simp add: decide_def kindChangeState_def remoteStep_def localStep_def noDecisions_def)

theorem decision_sets_disjoint_witness:
  "set (pullPaths (decide kindChangeState)) \<inter> set (pushPaths (decide kindChangeState)) = {}
   \<and> set (pullPaths (decide kindChangeState)) \<inter> set (conflictPaths (decide kindChangeState)) = {}
   \<and> set (pushPaths (decide kindChangeState)) \<inter> set (conflictPaths (decide kindChangeState)) = {}
   \<and> (\<exists>localFile remoteFile.
          map_of (LocalFiles kindChangeState) ''notes'' = Some localFile
        \<and> map_of (RemoteEntries kindChangeState) ''notes'' = Some remoteFile
        \<and> local_IsFolder localFile \<noteq> remote_IsFolder remoteFile)"
proof -
  have g: "go_map (RemoteEntries kindChangeState)"
    by (simp add: go_map_def kindChangeState_def)
  have m: "''notes'' \<in> set (deletePaths (decide kindChangeState))
              \<inter> set (pullPaths (decide kindChangeState))"
    by (simp add: decide_kindChangeState noDecisions_def)
  from decision_sets_disjoint[OF g] m show ?thesis by blast
qed

text \<open>
  Claim C5 as stated fails: with a local folder and a remote file at the same path, the
  path is in the delete slice and in the pull slice.
\<close>

theorem delete_and_pull_overlap:
  "go_map (LocalFiles kindChangeState) \<and> go_map (RemoteEntries kindChangeState)
   \<and> set (deletePaths (decide kindChangeState)) \<inter> set (pullPaths (decide kindChangeState))
       \<noteq> {}"
  by (simp add: decide_kindChangeState noDecisions_def)
     (simp add: go_map_def kindChangeState_def)


section \<open>Facts about the sync state\<close>

text \<open>
  Claim C9. \<open>UpdateWithPush\<close> with a deleted push removes the key of the push from the
  remote map; otherwise it maps that key to an entry with the uid, hash, creation time,
  modification time and folder flag of the push. Every other key, the local map and the
  fields \<open>LastSync\<close>, \<open>Size\<close> and \<open>Limit\<close> are unchanged, and the remote map stays a map.
\<close>

theorem UpdateWithPush_effect:
  "(if push_Deleted push
    then map_of (RemoteEntries (UpdateWithPush s push)) (push_EncryptedPath push) = None
    else map_of (RemoteEntries (UpdateWithPush s push)) (push_EncryptedPath push)
           = Some \<lparr>remote_Uid = push_Uid push,
                   remote_EncryptedPath = push_EncryptedPath push,
                   remote_EncryptedHash = push_EncryptedHash push,
                   remote_Created = push_Ctime push,
                   remote_Modified = push_Mtime push,
                   remote_IsFolder = push_Folder push\<rparr>)
   \<and> (\<forall>key. key \<noteq> push_EncryptedPath push \<longrightarrow>
          map_of (RemoteEntries (UpdateWithPush s push)) key = map_of (RemoteEntries s) key)
   \<and> LocalFiles (UpdateWithPush s push) = LocalFiles s
   \<and> LastSync (UpdateWithPush s push) = LastSync s
   \<and> Size (UpdateWithPush s push) = Size s
   \<and> Limit (UpdateWithPush s push) = Limit s
   \<and> (go_map (RemoteEntries s) \<longrightarrow> go_map (RemoteEntries (UpdateWithPush s push)))"
  by (simp add: UpdateWithPush_def update_conv' delete_conv' go_map_def
        distinct_update distinct_delete)

text \<open>Two remote entries, and a push for the first of them, deleted or not.\<close>

definition twoRemotes :: State where
  "twoRemotes =
     \<lparr>LocalFiles = [(''c'', \<lparr>local_Path = ''c'', local_Created = 1, local_Modified = 2,
                              local_IsFolder = False\<rparr>)],
      RemoteEntries =
        [(''a'', \<lparr>remote_Uid = 1, remote_EncryptedPath = ''a'', remote_EncryptedHash = ''h1'',
                  remote_Created = 5, remote_Modified = 6, remote_IsFolder = False\<rparr>),
         (''b'', \<lparr>remote_Uid = 2, remote_EncryptedPath = ''b'', remote_EncryptedHash = ''h2'',
                  remote_Created = 7, remote_Modified = 8, remote_IsFolder = True\<rparr>)],
      LastSync = 9, Size = 10, Limit = 11\<rparr>"

definition pushOfA :: "bool \<Rightarrow> IncomingPushMessage" where
  "pushOfA deleted =
     \<lparr>push_Op = ''push'', push_EncryptedPath = ''a'', push_EncryptedHash = ''h3'',
      push_Size = 40, push_Ctime = 50, push_Mtime = 60, push_Folder = False,
      push_Deleted = deleted, push_Device = ''phone'', push_Uid = 3\<rparr>"

theorem UpdateWithPush_effect_witness:
  "map_of (RemoteEntries (UpdateWithPush twoRemotes (pushOfA True))) ''a'' = None
   \<and> map_of (RemoteEntries (UpdateWithPush twoRemotes (pushOfA False))) ''a''
       = Some \<lparr>remote_Uid = 3, remote_EncryptedPath = ''a'', remote_EncryptedHash = ''h3'',
               remote_Created = 50, remote_Modified = 60, remote_IsFolder = False\<rparr>
   \<and> map_of (RemoteEntries (UpdateWithPush twoRemotes (pushOfA True))) ''b''
       = map_of (RemoteEntries twoRemotes) ''b''
   \<and> map_of (RemoteEntries (UpdateWithPush twoRemotes (pushOfA False))) ''b''
       = map_of (RemoteEntries twoRemotes) ''b''
   \<and> go_map (RemoteEntries (UpdateWithPush twoRemotes (pushOfA False)))"
proof -
  have g: "go_map (RemoteEntries twoRemotes)" by (simp add: go_map_def twoRemotes_def)
  have k: "''b'' \<noteq> push_EncryptedPath (pushOfA deleted)" for deleted
    by (simp add: pushOfA_def)
  from UpdateWithPush_effect[of "pushOfA True" twoRemotes]
       UpdateWithPush_effect[of "pushOfA False" twoRemotes] g k
  show ?thesis by (simp add: pushOfA_def)
qed

section \<open>Facts about the actions\<close>

lemma runDeletes_frame:
  "runDeletes l vault paths s = (res, s') \<Longrightarrow>
     RemoteEntries s' = RemoteEntries s
     \<and> (path \<notin> set paths \<longrightarrow> map_of (LocalFiles s') path = map_of (LocalFiles s) path)"
proof (induction paths arbitrary: s)
  case Nil
  then show ?case by simp
next
  case (Cons p rest)
  show ?case
  proof (cases "DecryptString l p (vaultPassword vault) (vaultSalt vault)")
    case (Ok decryptedPath)
    with Cons.prems
    have "runDeletes l vault rest (s\<lparr>LocalFiles := AList.delete p (LocalFiles s)\<rparr>) = (res, s')"
      by simp
    from Cons.IH[OF this] show ?thesis by (auto simp: delete_conv')
  qed (use Cons.prems in auto)
qed

lemma runNewFolders_frame:
  "runNewFolders l vault paths s = (res, s') \<Longrightarrow>
     RemoteEntries s' = RemoteEntries s
     \<and> (path \<notin> set paths \<longrightarrow> map_of (LocalFiles s') path = map_of (LocalFiles s) path)"
proof (induction paths arbitrary: s)
  case Nil
  then show ?case by simp
next
  case (Cons p rest)
  show ?case
  proof (cases "DecryptString l p (vaultPassword vault) (vaultSalt vault)")
    case (Ok decryptedPath)
    with Cons.prems
    have "runNewFolders l vault rest
            (s\<lparr>LocalFiles :=
                 AList.update p
                   \<lparr>local_Path = decryptedPath, local_Created = 0, local_Modified = 0,
                    local_IsFolder = True\<rparr>
                   (LocalFiles s)\<rparr>) = (res, s')"
      by simp
    from Cons.IH[OF this] show ?thesis by (auto simp: update_conv')
  qed (use Cons.prems in auto)
qed

lemma runPulls_frame:
  "runPulls l paths s ctx = (res, s', ctx') \<Longrightarrow>
     RemoteEntries s' = RemoteEntries s
     \<and> (path \<notin> set paths \<longrightarrow> map_of (LocalFiles s') path = map_of (LocalFiles s) path)"
proof (induction paths arbitrary: s ctx)
  case Nil
  then show ?case by simp
next
  case (Cons p rest)
  show ?case
  proof (cases "DecryptString l p (vaultPassword (Vault ctx)) (vaultSalt (Vault ctx))")
    case dec: (Ok decryptedPath)
    obtain r c where pf:
      "PullFile l ctx (remote_Uid (remoteEntryAt s p)) (remote_EncryptedHash (remoteEntryAt s p))
         = (r, c)"
      by (cases "PullFile l ctx (remote_Uid (remoteEntryAt s p))
                   (remote_EncryptedHash (remoteEntryAt s p))")
    show ?thesis
    proof (cases r)
      case (Ok content)
      with Cons.prems dec pf
      have "runPulls l rest
              (s\<lparr>LocalFiles :=
                   AList.update p
                     \<lparr>local_Path = decryptedPath,
                      local_Created = remote_Created (remoteEntryAt s p),
                      local_Modified = remote_Modified (remoteEntryAt s p),
                      local_IsFolder = remote_IsFolder (remoteEntryAt s p)\<rparr>
                     (LocalFiles s)\<rparr>) c = (res, s', ctx')"
        by (simp add: Let_def)
      from Cons.IH[OF this] show ?thesis by (auto simp: update_conv')
    qed (use Cons.prems dec pf in \<open>auto simp: Let_def\<close>)
  qed (use Cons.prems in auto)
qed

lemma SyncFiles_frame:
  assumes run: "SyncFiles l draws now s ctx = (res, s', ctx')"
    and "path \<notin> set (deletePaths (decide s))"
    and "path \<notin> set (newFolderPaths (decide s))"
    and "path \<notin> set (pullPaths (decide s))"
  shows "RemoteEntries s' = RemoteEntries s
       \<and> map_of (LocalFiles s') path = map_of (LocalFiles s) path"
proof -
  obtain r1 s1 where d: "runDeletes l (Vault ctx) (deletePaths (decide s)) s = (r1, s1)"
    by (cases "runDeletes l (Vault ctx) (deletePaths (decide s)) s")
  obtain r2 s2 where n: "runNewFolders l (Vault ctx) (newFolderPaths (decide s)) s1 = (r2, s2)"
    by (cases "runNewFolders l (Vault ctx) (newFolderPaths (decide s)) s1")
  obtain r3 s3 c3 where p: "runPulls l (pullPaths (decide s)) s2 ctx = (r3, s3, c3)"
    by (cases "runPulls l (pullPaths (decide s)) s2 ctx")
  obtain r4 c4 where q: "runPushes l draws 0 (pushPaths (decide s)) s3 c3 = (r4, c4)"
    by (cases "runPushes l draws 0 (pushPaths (decide s)) s3 c3")
  have f1: "RemoteEntries s1 = RemoteEntries s"
    "map_of (LocalFiles s1) path = map_of (LocalFiles s) path"
    using runDeletes_frame[OF d, of path] assms by simp_all
  have f2: "RemoteEntries s2 = RemoteEntries s"
    "map_of (LocalFiles s2) path = map_of (LocalFiles s) path"
    using runNewFolders_frame[OF n, of path] assms f1 by simp_all
  have f3: "RemoteEntries s3 = RemoteEntries s"
    "map_of (LocalFiles s3) path = map_of (LocalFiles s) path"
    using runPulls_frame[OF p, of path] assms f2 by simp_all
  have "s' = s \<or> s' = s1 \<or> s' = s2 \<or> s' = s3 \<or> s' = s3\<lparr>LastSync := now\<rparr>"
    using run d n p q
    by (simp add: SyncFiles_def Let_def split: result.splits)
  then show ?thesis using f1 f2 f3 by auto
qed

section \<open>Running a pass on the small instance\<close>

lemma byte_char_byte: "word_of_nat (of_char (char_of (unat (w :: byte)))) = w"
proof -
  have "unat w < 2 ^ LENGTH(8)" by (rule unsigned_less)
  then have "unat w mod 256 = unat w" by simp
  then show ?thesis by simp
qed

lemma char_byte_char: "char_of (unat (word_of_nat (of_char c) :: byte)) = c"
proof -
  have "(of_char c :: nat) < 256" by (rule nat_of_char_less_256)
  then have "unat (word_of_nat (of_char c) :: byte) = of_char c"
    by (simp add: unat_of_nat)
  then show ?thesis by simp
qed

lemma bytes_of_string_of_bytes: "bytes_of_string (string_of_bytes b) = b"
  unfolding bytes_of_string_def string_of_bytes_def map_map o_def
  by (simp only: byte_char_byte map_ident)

lemma string_of_bytes_of_string: "string_of_bytes (bytes_of_string s) = s"
  unfolding bytes_of_string_def string_of_bytes_def map_map o_def
  by (simp only: char_byte_char map_ident)


text \<open>
  A key of the maps is the text encoding of an encrypted path; \<open>demo_hex_encrypt\<close> makes
  one with \<open>demo_lib\<close>, the empty password and salt, and the nonce 7,...,7.
\<close>

definition demo_hex_encrypt :: "string \<Rightarrow> string" where
  "demo_hex_encrypt p =
     (case Encrypt demo_lib (replicate 12 7) (bytes_of_string p) [] [] of
        Ok c \<Rightarrow> hex_EncodeToString demo_lib c
      | Err e \<Rightarrow> []
      | Panic q \<Rightarrow> [])"

definition demo_vault :: VaultInfo where
  "demo_vault = \<lparr>vault_Id = ''v1'', vault_Name = ''demo'', vault_Password = [],
                  vault_Salt = [], vault_Host = ''host''\<rparr>"

definition demo_ctx :: "bytes list \<Rightarrow> ObsidianSocketContext" where
  "demo_ctx frames =
     \<lparr>ws = \<lparr>inbound = frames, outbound = [], writes_left = 100\<rparr>,
      Vault = demo_vault, authToken = ''token'', keyhash = ''keyhash'', filteredQueue = []\<rparr>"

lemma demo_vault_key [simp]:
  "vaultPassword demo_vault = []" "vaultSalt demo_vault = []"
  "Vault (demo_ctx frames) = demo_vault"
  by (simp_all add: vaultPassword_def vaultSalt_def demo_vault_def demo_ctx_def
        bytes_of_string_def)

lemma demo_hex: "hex_DecodeString demo_lib (hex_EncodeToString demo_lib c) = Inr c"
  by (simp add: demo_lib_def bytes_of_string_of_bytes)

lemma demo_Encrypt:
  "12 \<le> length rnd \<Longrightarrow>
     Encrypt demo_lib rnd p [] []
       = Ok (take 12 rnd @ gcm_Seal demo_lib (replicate 32 0) (take 12 rnd) p)"
  by (rule Encrypt_layout[OF demo_deriveKey demo_NewCipher demo_NewGCM])

lemma demo_Decrypt:
  "12 \<le> length rnd \<Longrightarrow>
     Decrypt demo_lib (take 12 rnd @ gcm_Seal demo_lib (replicate 32 0) (take 12 rnd) p) [] []
       = Ok p"
  by (rule Decrypt_Encrypt[OF demo_deriveKey demo_NewCipher demo_NewGCM demo_seal_open _
        demo_Encrypt])

lemma demo_DecryptString: "DecryptString demo_lib (demo_hex_encrypt p) [] [] = Ok p"
proof -
  have r: "12 \<le> length (replicate 12 (7 :: byte))" by simp
  show ?thesis
    using demo_Decrypt[OF r, of "bytes_of_string p"]
    by (simp add: demo_hex_encrypt_def demo_Encrypt DecryptString_def demo_hex
          string_of_bytes_of_string)
qed

text \<open>
  \<open>withoutPath path s\<close> is the state \<open>s\<close> with the path taken out of both maps, and
  \<open>dropConflict path d\<close> the decisions \<open>d\<close> with the path taken out of the conflict
  slice. They state what a pass does for a path: nothing, when the pass on \<open>s\<close> and the
  pass on \<open>withoutPath path s\<close> end alike.
\<close>

definition withoutPath :: "string \<Rightarrow> State \<Rightarrow> State" where
  "withoutPath path s =
     s\<lparr>LocalFiles := AList.delete path (LocalFiles s),
       RemoteEntries := AList.delete path (RemoteEntries s)\<rparr>"

definition dropConflict :: "string \<Rightarrow> Decisions \<Rightarrow> Decisions" where
  "dropConflict path d = d\<lparr>conflictPaths := filter (\<lambda>p. p \<noteq> path) (conflictPaths d)\<rparr>"

lemma withoutPath_simps [simp]:
  "LastSync (withoutPath path s) = LastSync s"
  "p \<noteq> path \<Longrightarrow> map_of (LocalFiles (withoutPath path s)) p = map_of (LocalFiles s) p"
  "p \<noteq> path \<Longrightarrow> map_of (RemoteEntries (withoutPath path s)) p = map_of (RemoteEntries s) p"
  by (simp_all add: withoutPath_def)

lemma remoteStep_without:
  "p \<noteq> path \<Longrightarrow>
     remoteStep (withoutPath path s) p r (dropConflict path d)
       = dropConflict path (remoteStep s p r d)"
  by (simp add: remoteStep_def dropConflict_def Let_def split: option.splits)

lemma localStep_without:
  "p \<noteq> path \<Longrightarrow>
     localStep (withoutPath path s) p lf (dropConflict path d)
       = dropConflict path (localStep s p lf d)"
  by (simp add: localStep_def dropConflict_def Let_def split: option.splits)

lemma remoteLoop_without:
  assumes "\<And>r d. (path, r) \<in> set rs \<Longrightarrow>
             dropConflict path (remoteStep s path r d) = dropConflict path d"
  shows "remoteLoop (withoutPath path s) (AList.delete path rs) (dropConflict path d)
           = dropConflict path (remoteLoop s rs d)"
  using assms
proof (induction rs arbitrary: d)
  case Nil
  then show ?case by simp
next
  case (Cons pr rs)
  obtain p r where pr: "pr = (p, r)" by (cases pr)
  have IH: "remoteLoop (withoutPath path s) (AList.delete path rs) (dropConflict path d')
              = dropConflict path (remoteLoop s rs d')" for d'
    by (rule Cons.IH) (use Cons.prems in auto)
  show ?case
  proof (cases "p = path")
    case True
    have "dropConflict path (remoteStep s path r d) = dropConflict path d"
      by (rule Cons.prems) (simp add: pr True)
    with IH[of "remoteStep s path r d"] True pr show ?thesis by simp
  next
    case False
    with IH[of "remoteStep s p r d"] pr show ?thesis
      by (simp add: remoteStep_without)
  qed
qed

lemma localLoop_without:
  assumes "\<And>lf d. (path, lf) \<in> set ls \<Longrightarrow> localStep s path lf d = d"
  shows "localLoop (withoutPath path s) (AList.delete path ls) (dropConflict path d)
           = dropConflict path (localLoop s ls d)"
  using assms
proof (induction ls arbitrary: d)
  case Nil
  then show ?case by simp
next
  case (Cons pl ls)
  obtain p lf where pl: "pl = (p, lf)" by (cases pl)
  have IH: "localLoop (withoutPath path s) (AList.delete path ls) (dropConflict path d')
              = dropConflict path (localLoop s ls d')" for d'
    by (rule Cons.IH) (use Cons.prems in auto)
  show ?case
  proof (cases "p = path")
    case True
    have "localStep s path lf d = d" by (rule Cons.prems) (simp add: pl True)
    with IH[of d] True pl show ?thesis by simp
  next
    case False
    with IH[of "localStep s p lf d"] pl show ?thesis
      by (simp add: localStep_without)
  qed
qed

lemma decide_without:
  assumes remote: "go_map (RemoteEntries s)"
    and l: "map_of (LocalFiles s) path = Some localFile"
    and r: "map_of (RemoteEntries s) path = Some remoteFile"
    and lf: "\<not> local_IsFolder localFile"
    and rf: "\<not> remote_IsFolder remoteFile"
    and newer: "remote_Modified remoteFile < local_Modified localFile"
  shows "decide (withoutPath path s) = dropConflict path (decide s)"
proof -
  have rs: "dropConflict path (remoteStep s path r' d) = dropConflict path d"
    if "(path, r') \<in> set (RemoteEntries s)" for r' d
  proof -
    have "r' = remoteFile" using go_map_entry[OF remote r that] .
    then show ?thesis
      using l lf rf newer by (simp add: remoteStep_def dropConflict_def Let_def)
  qed
  have ls: "localStep s path lf' d = d" for lf' d
    using r by (simp add: localStep_def)
  have n: "dropConflict path noDecisions = noDecisions"
    by (simp add: dropConflict_def noDecisions_def)
  have "decide (withoutPath path s)
          = localLoop (withoutPath path s) (AList.delete path (LocalFiles s))
              (remoteLoop (withoutPath path s) (AList.delete path (RemoteEntries s))
                 (dropConflict path noDecisions))"
    by (simp add: decide_def withoutPath_def n)
  also have "\<dots> = localLoop (withoutPath path s) (AList.delete path (LocalFiles s))
              (dropConflict path (remoteLoop s (RemoteEntries s) noDecisions))"
    by (simp only: remoteLoop_without[OF rs])
  also have "\<dots> = dropConflict path (localLoop s (LocalFiles s)
                        (remoteLoop s (RemoteEntries s) noDecisions))"
    by (rule localLoop_without) (rule ls)
  finally show ?thesis by (simp add: decide_def)
qed


lemma reportConflicts_without:
  "DecryptString l path (vaultPassword vault) (vaultSalt vault) = Ok dp \<Longrightarrow>
     reportConflicts l vault (filter (\<lambda>p. p \<noteq> path) cs) = reportConflicts l vault cs"
  by (induction cs) (auto split: result.splits)

lemma reportConflicts_stops:
  "path \<in> set cs \<Longrightarrow>
   \<forall>dp. DecryptString l path (vaultPassword vault) (vaultSalt vault) \<noteq> Ok dp \<Longrightarrow>
     reportConflicts l vault cs \<noteq> Ok ()"
  by (induction cs) (auto split: result.splits)

lemma withoutPath_delete:
  "withoutPath path (s\<lparr>LocalFiles := AList.delete p (LocalFiles s)\<rparr>)
     = (withoutPath path s)\<lparr>LocalFiles := AList.delete p (LocalFiles (withoutPath path s))\<rparr>"
  by (simp add: withoutPath_def delete_twist)

lemma withoutPath_update:
  "p \<noteq> path \<Longrightarrow>
     withoutPath path (s\<lparr>LocalFiles := AList.update p v (LocalFiles s)\<rparr>)
       = (withoutPath path s)\<lparr>LocalFiles := AList.update p v (LocalFiles (withoutPath path s))\<rparr>"
  by (simp add: withoutPath_def delete_update)

lemma runDeletes_without:
  "runDeletes l vault ds (withoutPath path s)
     = (fst (runDeletes l vault ds s), withoutPath path (snd (runDeletes l vault ds s)))"
proof (induction ds arbitrary: s)
  case Nil
  then show ?case by simp
next
  case (Cons p ds)
  show ?case
    by (cases "DecryptString l p (vaultPassword vault) (vaultSalt vault)")
       (simp_all add: Cons.IH[symmetric] withoutPath_delete)
qed

lemma runNewFolders_without:
  "path \<notin> set ps \<Longrightarrow>
     runNewFolders l vault ps (withoutPath path s)
       = (fst (runNewFolders l vault ps s), withoutPath path (snd (runNewFolders l vault ps s)))"
proof (induction ps arbitrary: s)
  case Nil
  then show ?case by simp
next
  case (Cons p ps)
  then have ne: "p \<noteq> path" and rest: "path \<notin> set ps" by auto
  show ?case
    by (cases "DecryptString l p (vaultPassword vault) (vaultSalt vault)")
       (simp_all add: Cons.IH[OF rest, symmetric] withoutPath_update[OF ne])
qed

lemma remoteEntryAt_without:
  "p \<noteq> path \<Longrightarrow> remoteEntryAt (withoutPath path s) p = remoteEntryAt s p"
  by (simp add: remoteEntryAt_def)

lemma localEntryAt_without:
  "p \<noteq> path \<Longrightarrow> localEntryAt (withoutPath path s) p = localEntryAt s p"
  by (simp add: localEntryAt_def)

lemma runPulls_without:
  "path \<notin> set ps \<Longrightarrow>
     runPulls l ps (withoutPath path s) ctx
       = (fst (runPulls l ps s ctx),
          withoutPath path (fst (snd (runPulls l ps s ctx))),
          snd (snd (runPulls l ps s ctx)))"
proof (induction ps arbitrary: s ctx)
  case Nil
  then show ?case by simp
next
  case (Cons p ps)
  then have ne: "p \<noteq> path" and rest: "path \<notin> set ps" by auto
  show ?case
  proof (cases "DecryptString l p (vaultPassword (Vault ctx)) (vaultSalt (Vault ctx))")
    case (Ok decryptedPath)
    obtain r c where pf:
      "PullFile l ctx (remote_Uid (remoteEntryAt s p)) (remote_EncryptedHash (remoteEntryAt s p))
         = (r, c)"
      by (cases "PullFile l ctx (remote_Uid (remoteEntryAt s p))
                   (remote_EncryptedHash (remoteEntryAt s p))")
    show ?thesis
      by (cases r)
         (simp_all add: Ok pf Let_def remoteEntryAt_without[OF ne]
            Cons.IH[OF rest, symmetric] withoutPath_update[OF ne])
  qed (simp_all)
qed

lemma runPushes_without:
  "path \<notin> set ps \<Longrightarrow>
     runPushes l draws i ps (withoutPath path s) ctx = runPushes l draws i ps s ctx"
proof (induction ps arbitrary: i ctx)
  case Nil
  then show ?case by simp
next
  case (Cons p ps)
  then have ne: "p \<noteq> path" and rest: "path \<notin> set ps" by auto
  show ?case
    by (simp add: Let_def localEntryAt_without[OF ne] Cons.IH[OF rest]
          split: sum.splits prod.splits result.splits)
qed

lemma withoutPath_LastSync:
  "withoutPath path (s\<lparr>LastSync := now\<rparr>) = (withoutPath path s)\<lparr>LastSync := now\<rparr>"
  by (simp add: withoutPath_def)

lemma SyncFiles_without:
  assumes d: "decide (withoutPath path s) = dropConflict path (decide s)"
    and dec: "DecryptString l path (vaultPassword (Vault ctx)) (vaultSalt (Vault ctx)) = Ok dp"
    and nf: "path \<notin> set (newFolderPaths (decide s))"
    and pl: "path \<notin> set (pullPaths (decide s))"
    and ps: "path \<notin> set (pushPaths (decide s))"
  shows "SyncFiles l draws now (withoutPath path s) ctx
           = (fst (SyncFiles l draws now s ctx),
              withoutPath path (fst (snd (SyncFiles l draws now s ctx))),
              snd (snd (SyncFiles l draws now s ctx)))"
proof -
  have fields: "pullPaths (dropConflict path (decide s)) = pullPaths (decide s)"
    "pushPaths (dropConflict path (decide s)) = pushPaths (decide s)"
    "newFolderPaths (dropConflict path (decide s)) = newFolderPaths (decide s)"
    "deletePaths (dropConflict path (decide s)) = deletePaths (decide s)"
    "conflictPaths (dropConflict path (decide s))
       = filter (\<lambda>p. p \<noteq> path) (conflictPaths (decide s))"
    by (simp_all add: dropConflict_def)
  obtain r1 s1 where del: "runDeletes l (Vault ctx) (deletePaths (decide s)) s = (r1, s1)"
    by (cases "runDeletes l (Vault ctx) (deletePaths (decide s)) s")
  obtain r2 s2 where new: "runNewFolders l (Vault ctx) (newFolderPaths (decide s)) s1 = (r2, s2)"
    by (cases "runNewFolders l (Vault ctx) (newFolderPaths (decide s)) s1")
  obtain r3 s3 c3 where pull: "runPulls l (pullPaths (decide s)) s2 ctx = (r3, s3, c3)"
    by (cases "runPulls l (pullPaths (decide s)) s2 ctx")
  obtain r4 c4 where push: "runPushes l draws 0 (pushPaths (decide s)) s3 c3 = (r4, c4)"
    by (cases "runPushes l draws 0 (pushPaths (decide s)) s3 c3")
  have del': "runDeletes l (Vault ctx) (deletePaths (decide s)) (withoutPath path s)
                = (r1, withoutPath path s1)"
    by (simp add: runDeletes_without del)
  have new': "runNewFolders l (Vault ctx) (newFolderPaths (decide s)) (withoutPath path s1)
                = (r2, withoutPath path s2)"
    by (simp add: runNewFolders_without[OF nf] new)
  have pull': "runPulls l (pullPaths (decide s)) (withoutPath path s2) ctx
                = (r3, withoutPath path s3, c3)"
    by (simp add: runPulls_without[OF pl] pull)
  have push': "runPushes l draws 0 (pushPaths (decide s)) (withoutPath path s3) c3 = (r4, c4)"
    by (simp add: runPushes_without[OF ps] push)
  show ?thesis
    by (simp add: SyncFiles_def Let_def d fields reportConflicts_without[OF dec]
          del new pull push del' new' pull' push' withoutPath_LastSync
          split: result.splits)
qed

lemma SyncFiles_stops_at_conflict:
  assumes "path \<in> set (conflictPaths (decide s))"
    and "\<forall>dp. DecryptString l path (vaultPassword (Vault ctx)) (vaultSalt (Vault ctx)) \<noteq> Ok dp"
  shows "fst (SyncFiles l draws now s ctx) \<noteq> Ok () \<and> snd (SyncFiles l draws now s ctx) = (s, ctx)"
  using reportConflicts_stops[OF assms]
  by (cases "reportConflicts l (Vault ctx) (conflictPaths (decide s))")
     (simp_all add: SyncFiles_def Let_def)

text \<open>
  Claim C4. A path that is a file in both maps, with the local modification time
  strictly greater than the remote one, is put in the conflict slice and in no other
  slice, and however the pass ends, the entries of the path in \<open>LocalFiles\<close> and
  \<open>RemoteEntries\<close> are what they were. The pass performs no pull, push or deletion for
  the path: if the path does not decrypt, the pass stops while it reports the conflicts,
  with the state and the socket untouched; if it decrypts, the pass ends with the same
  outcome and the same socket context (frames written, frames read, frames queued) as
  the pass on the state without the path, and with the same state but for the path.
\<close>

theorem newer_local_file_conflict_only:
  assumes remote: "go_map (RemoteEntries s)"
    and l: "map_of (LocalFiles s) path = Some localFile"
    and r: "map_of (RemoteEntries s) path = Some remoteFile"
    and lf: "\<not> local_IsFolder localFile"
    and rf: "\<not> remote_IsFolder remoteFile"
    and newer: "remote_Modified remoteFile < local_Modified localFile"
  shows "path \<in> set (conflictPaths (decide s))
       \<and> path \<notin> set (pullPaths (decide s))
       \<and> path \<notin> set (pushPaths (decide s))
       \<and> path \<notin> set (deletePaths (decide s))
       \<and> path \<notin> set (newFolderPaths (decide s))
       \<and> map_of (LocalFiles (fst (snd (SyncFiles lb draws now s ctx)))) path = Some localFile
       \<and> map_of (RemoteEntries (fst (snd (SyncFiles lb draws now s ctx)))) path
           = Some remoteFile
       \<and> ((\<forall>dp. DecryptString lb path (vaultPassword (Vault ctx)) (vaultSalt (Vault ctx))
                   \<noteq> Ok dp) \<longrightarrow>
            fst (SyncFiles lb draws now s ctx) \<noteq> Ok ()
            \<and> snd (SyncFiles lb draws now s ctx) = (s, ctx))
       \<and> ((\<exists>dp. DecryptString lb path (vaultPassword (Vault ctx)) (vaultSalt (Vault ctx))
                   = Ok dp) \<longrightarrow>
            SyncFiles lb draws now (withoutPath path s) ctx
              = (fst (SyncFiles lb draws now s ctx),
                 withoutPath path (fst (snd (SyncFiles lb draws now s ctx))),
                 snd (snd (SyncFiles lb draws now s ctx))))"
proof -
  have only: "r' = remoteFile" if "(path, r') \<in> set (RemoteEntries s)" for r'
    using go_map_entry[OF remote r that] .
  have mem: "(path, remoteFile) \<in> set (RemoteEntries s)"
    using r by (rule map_of_SomeD)
  have yes: "addsConflict s path remoteFile"
    using l lf newer by (simp add: addsConflict_def)
  have no: "\<not> addsPull s path remoteFile" "\<not> addsNewFolder s path remoteFile"
       "\<not> kindDiffers s path remoteFile"
    using l lf rf newer by (simp_all add: addsPull_def addsNewFolder_def kindDiffers_def)
  have nol: "\<not> addsPush s path lf'" "\<not> addsDelete s path lf'" for lf'
    using r by (simp_all add: addsPush_def addsDelete_def)
  have c: "path \<in> set (conflictPaths (decide s))"
    using mem yes by (auto simp: decide_sets)
  have n: "path \<notin> set (pullPaths (decide s))" "path \<notin> set (pushPaths (decide s))"
    "path \<notin> set (deletePaths (decide s))" "path \<notin> set (newFolderPaths (decide s))"
    using only no nol by (auto simp: decide_sets)
  obtain res s' ctx' where run: "SyncFiles lb draws now s ctx = (res, s', ctx')"
    by (cases "SyncFiles lb draws now s ctx")
  from SyncFiles_frame[OF run n(3) n(4) n(1)] l r
  have e: "map_of (LocalFiles s') path = Some localFile"
          "map_of (RemoteEntries s') path = Some remoteFile"
    by simp_all
  have stop: "fst (SyncFiles lb draws now s ctx) \<noteq> Ok ()
              \<and> snd (SyncFiles lb draws now s ctx) = (s, ctx)"
    if "\<forall>dp. DecryptString lb path (vaultPassword (Vault ctx)) (vaultSalt (Vault ctx)) \<noteq> Ok dp"
    by (rule SyncFiles_stops_at_conflict[OF c that])
  have d: "decide (withoutPath path s) = dropConflict path (decide s)"
    by (rule decide_without[OF remote l r lf rf newer])
  have same: "SyncFiles lb draws now (withoutPath path s) ctx
              = (fst (SyncFiles lb draws now s ctx),
                 withoutPath path (fst (snd (SyncFiles lb draws now s ctx))),
                 snd (snd (SyncFiles lb draws now s ctx)))"
    if "\<exists>dp. DecryptString lb path (vaultPassword (Vault ctx)) (vaultSalt (Vault ctx)) = Ok dp"
  proof -
    from that obtain dp where
      "DecryptString lb path (vaultPassword (Vault ctx)) (vaultSalt (Vault ctx)) = Ok dp" ..
    then show ?thesis by (rule SyncFiles_without[OF d _ n(4) n(1) n(2)])
  qed
  from c n e run stop same show ?thesis by simp
qed

text \<open>
  A pass on the small instance. The file \<open>note.md\<close> is in both maps, modified locally at
  300 and remotely at 100; the folder \<open>dir\<close> is in the remote map only. The pass reports
  the conflict, creates the folder, sends nothing and stamps \<open>LastSync\<close>; the entries of
  the file are left as they were, and the pass on the state without the file ends alike.
\<close>

lemma demo_hex_encrypt_inj:
  assumes "demo_hex_encrypt a = demo_hex_encrypt b"
  shows "a = b"
proof -
  have "Ok a = DecryptString demo_lib (demo_hex_encrypt a) [] []"
    by (simp only: demo_DecryptString)
  also have "\<dots> = DecryptString demo_lib (demo_hex_encrypt b) [] []"
    by (simp only: assms)
  also have "\<dots> = Ok b" by (simp only: demo_DecryptString)
  finally show ?thesis by (simp only: result.inject)
qed

definition noteKey :: string where
  "noteKey = demo_hex_encrypt ''note.md''"

definition dirKey :: string where
  "dirKey = demo_hex_encrypt ''dir''"

lemma keys_differ [simp]: "noteKey \<noteq> dirKey" "dirKey \<noteq> noteKey"
proof -
  have "''note.md'' \<noteq> ''dir''" by simp
  then have "demo_hex_encrypt ''note.md'' \<noteq> demo_hex_encrypt ''dir''"
    by (rule contrapos_nn) (rule demo_hex_encrypt_inj)
  then show "noteKey \<noteq> dirKey" "dirKey \<noteq> noteKey"
    unfolding noteKey_def dirKey_def by (simp_all only: not_sym[of "demo_hex_encrypt ''note.md''"] simp_thms)
qed

definition noteLocal :: ObsidianLocalEntry where
  "noteLocal = \<lparr>local_Path = ''note.md'', local_Created = 10, local_Modified = 300,
                 local_IsFolder = False\<rparr>"

definition noteRemote :: ObsidianRemoteEntry where
  "noteRemote = \<lparr>remote_Uid = 4, remote_EncryptedPath = noteKey, remote_EncryptedHash = [],
                  remote_Created = 10, remote_Modified = 100, remote_IsFolder = False\<rparr>"

definition dirRemote :: ObsidianRemoteEntry where
  "dirRemote = \<lparr>remote_Uid = 5, remote_EncryptedPath = dirKey, remote_EncryptedHash = [],
                 remote_Created = 20, remote_Modified = 20, remote_IsFolder = True\<rparr>"

definition dirLocal :: ObsidianLocalEntry where
  "dirLocal = \<lparr>local_Path = ''dir'', local_Created = 0, local_Modified = 0,
                local_IsFolder = True\<rparr>"

definition passState :: State where
  "passState =
     \<lparr>LocalFiles = [(noteKey, noteLocal)],
      RemoteEntries = [(noteKey, noteRemote), (dirKey, dirRemote)],
      LastSync = 50, Size = 0, Limit = 0\<rparr>"

lemma decide_passState:
  "decide passState = noDecisions\<lparr>newFolderPaths := [dirKey], conflictPaths := [noteKey]\<rparr>"
  by (simp add: decide_def passState_def remoteStep_def localStep_def noDecisions_def
        noteLocal_def noteRemote_def dirRemote_def)

lemma demo_keys_decrypt:
  "DecryptString demo_lib noteKey [] [] = Ok ''note.md''"
  "DecryptString demo_lib dirKey [] [] = Ok ''dir''"
  by (simp_all add: noteKey_def dirKey_def demo_DecryptString)

lemma SyncFiles_passState:
  "SyncFiles demo_lib draws 77 passState (demo_ctx [])
     = (Ok (),
        passState\<lparr>LocalFiles := [(noteKey, noteLocal), (dirKey, dirLocal)], LastSync := 77\<rparr>,
        demo_ctx [])"
  by (simp add: SyncFiles_def decide_passState noDecisions_def demo_keys_decrypt)
     (simp add: passState_def dirLocal_def)


theorem newer_local_file_conflict_only_witness:
  "SyncFiles demo_lib (\<lambda>k. []) 77 passState (demo_ctx [])
     = (Ok (),
        passState\<lparr>LocalFiles := [(noteKey, noteLocal), (dirKey, dirLocal)], LastSync := 77\<rparr>,
        demo_ctx [])
   \<and> decide passState = noDecisions\<lparr>newFolderPaths := [dirKey], conflictPaths := [noteKey]\<rparr>
   \<and> noteKey \<in> set (conflictPaths (decide passState))
   \<and> noteKey \<notin> set (pullPaths (decide passState))
   \<and> noteKey \<notin> set (pushPaths (decide passState))
   \<and> noteKey \<notin> set (deletePaths (decide passState))
   \<and> noteKey \<notin> set (newFolderPaths (decide passState))
   \<and> map_of (LocalFiles (fst (snd (SyncFiles demo_lib (\<lambda>k. []) 77 passState (demo_ctx [])))))
        noteKey = Some noteLocal
   \<and> map_of (RemoteEntries (fst (snd (SyncFiles demo_lib (\<lambda>k. []) 77 passState (demo_ctx [])))))
        noteKey = Some noteRemote
   \<and> SyncFiles demo_lib (\<lambda>k. []) 77 (withoutPath noteKey passState) (demo_ctx [])
       = (Ok (),
          withoutPath noteKey
            (passState\<lparr>LocalFiles := [(noteKey, noteLocal), (dirKey, dirLocal)],
                       LastSync := 77\<rparr>),
          demo_ctx [])"
proof -
  have g: "go_map (RemoteEntries passState)"
    by (simp add: go_map_def passState_def)
  have l: "map_of (LocalFiles passState) noteKey = Some noteLocal"
    by (simp add: passState_def)
  have r: "map_of (RemoteEntries passState) noteKey = Some noteRemote"
    by (simp add: passState_def)
  have lf: "\<not> local_IsFolder noteLocal" by (simp add: noteLocal_def)
  have rf: "\<not> remote_IsFolder noteRemote" by (simp add: noteRemote_def)
  have newer: "remote_Modified noteRemote < local_Modified noteLocal"
    by (simp add: noteLocal_def noteRemote_def)
  note t = newer_local_file_conflict_only[where lb = demo_lib and ctx = "demo_ctx []"
             and draws = "\<lambda>k. []" and now = 77, OF g l r lf rf newer]
  have dec: "\<exists>dp. DecryptString demo_lib noteKey
                    (vaultPassword (Vault (demo_ctx []))) (vaultSalt (Vault (demo_ctx []))) = Ok dp"
    by (simp add: demo_keys_decrypt)
  have run: "SyncFiles demo_lib (\<lambda>k. []) 77 passState (demo_ctx [])
     = (Ok (),
        passState\<lparr>LocalFiles := [(noteKey, noteLocal), (dirKey, dirLocal)], LastSync := 77\<rparr>,
        demo_ctx [])"
    by (rule SyncFiles_passState)
  from t dec have
    "SyncFiles demo_lib (\<lambda>k. []) 77 (withoutPath noteKey passState) (demo_ctx [])
       = (fst (SyncFiles demo_lib (\<lambda>k. []) 77 passState (demo_ctx [])),
          withoutPath noteKey (fst (snd (SyncFiles demo_lib (\<lambda>k. []) 77 passState (demo_ctx [])))),
          snd (snd (SyncFiles demo_lib (\<lambda>k. []) 77 passState (demo_ctx []))))"
    by blast
  then have w: "SyncFiles demo_lib (\<lambda>k. []) 77 (withoutPath noteKey passState) (demo_ctx [])
       = (Ok (),
          withoutPath noteKey
            (passState\<lparr>LocalFiles := [(noteKey, noteLocal), (dirKey, dirLocal)],
                       LastSync := 77\<rparr>),
          demo_ctx [])"
    by (simp only: run fst_conv snd_conv)
  from t have m: "noteKey \<in> set (conflictPaths (decide passState))
   \<and> noteKey \<notin> set (pullPaths (decide passState))
   \<and> noteKey \<notin> set (pushPaths (decide passState))
   \<and> noteKey \<notin> set (deletePaths (decide passState))
   \<and> noteKey \<notin> set (newFolderPaths (decide passState))
   \<and> map_of (LocalFiles (fst (snd (SyncFiles demo_lib (\<lambda>k. []) 77 passState (demo_ctx [])))))
        noteKey = Some noteLocal
   \<and> map_of (RemoteEntries (fst (snd (SyncFiles demo_lib (\<lambda>k. []) 77 passState (demo_ctx [])))))
        noteKey = Some noteRemote"
    by blast
  from run decide_passState m w show ?thesis by blast
qed

section \<open>Facts about matching and buffering\<close>

lemma scanQueue_found:
  "queue = seen @ pre @ m # post \<Longrightarrow> i = length seen \<Longrightarrow>
   \<forall>x \<in> set pre. \<not> matcher x \<Longrightarrow> matcher m \<Longrightarrow>
     scanQueue matcher queue i = Some (m, seen @ pre @ post)"
proof (induction pre arbitrary: seen i)
  case Nil
  then have at: "queue ! i = m" "i < length queue" by simp_all
  have "(if i = 0 then drop 1 queue
         else if i = length queue - 1 then take i queue
         else take i queue @ drop (i + 1) queue) = seen @ post"
    using Nil by (cases seen) auto
  with at Nil show ?case by (subst scanQueue.simps) simp
next
  case (Cons x pre)
  have at: "queue ! i = x" "i < length queue" using Cons.prems by simp_all
  have "scanQueue matcher queue (i + 1) = Some (m, (seen @ [x]) @ pre @ post)"
    by (rule Cons.IH) (use Cons.prems in auto)
  with at Cons.prems show ?case by (subst scanQueue.simps) simp
qed

lemma scanQueue_none:
  "\<forall>x \<in> set (drop i queue). \<not> matcher x \<Longrightarrow> scanQueue matcher queue i = None"
proof (induction matcher queue i rule: scanQueue.induct)
  case (1 matcher queue i)
  show ?case
  proof (cases "i < length queue")
    case False
    then show ?thesis by (simp add: scanQueue.simps[of matcher queue i])
  next
    case True
    then have d: "drop i queue = queue ! i # drop (i + 1) queue"
      by (simp add: Cons_nth_drop_Suc)
    with "1.prems" have nm: "\<not> matcher (queue ! i)"
      and rest: "\<forall>x \<in> set (drop (i + 1) queue). \<not> matcher x" by simp_all
    from "1.IH"[OF True nm rest] True nm show ?thesis
      by (simp add: scanQueue.simps[of matcher queue i])
  qed
qed

lemma scanQueue_matches:
  "scanQueue matcher queue i = Some (m, queue') \<Longrightarrow> matcher m"
proof (induction matcher queue i rule: scanQueue.induct)
  case (1 matcher queue i)
  then show ?case
    by (cases "i < length queue"; cases "matcher (queue ! i)")
       (auto simp: scanQueue.simps[of matcher queue i])
qed

lemma nextMessage_Cons:
  "inbound (ws ctx) = m # rest \<Longrightarrow>
     nextMessage ctx = (Ok m, ctx\<lparr>ws := (ws ctx)\<lparr>inbound := rest\<rparr>\<rparr>)"
  by (simp add: nextMessage_def ws_ReadMessage_def)

lemma nextMessage_Nil:
  "inbound (ws ctx) = [] \<Longrightarrow>
     nextMessage ctx
       = (Err (ErrorfWrap ''error reading message'' (LibError ''websocket: read failed'')), ctx)"
  by (simp add: nextMessage_def ws_ReadMessage_def)

lemma readLoop_found:
  "inbound (ws ctx) = pre @ m # rest \<Longrightarrow> \<forall>x \<in> set pre. \<not> matcher x \<Longrightarrow> matcher m \<Longrightarrow>
     readLoop matcher ctx
       = (Ok m, ctx\<lparr>ws := (ws ctx)\<lparr>inbound := rest\<rparr>,
                   filteredQueue := filteredQueue ctx @ pre\<rparr>)"
proof (induction pre arbitrary: ctx)
  case Nil
  then show ?case
    by (simp add: readLoop.simps[of matcher ctx] nextMessage_Cons)
next
  case (Cons x pre)
  let ?c = "ctx\<lparr>ws := (ws ctx)\<lparr>inbound := pre @ m # rest\<rparr>\<rparr>"
  have nm: "nextMessage ctx = (Ok x, ?c)"
    using Cons.prems by (simp add: nextMessage_Cons)
  have "readLoop matcher (?c\<lparr>filteredQueue := filteredQueue ?c @ [x]\<rparr>)
          = (Ok m, (?c\<lparr>filteredQueue := filteredQueue ?c @ [x]\<rparr>)
                     \<lparr>ws := (ws (?c\<lparr>filteredQueue := filteredQueue ?c @ [x]\<rparr>))\<lparr>inbound := rest\<rparr>,
                      filteredQueue := filteredQueue (?c\<lparr>filteredQueue := filteredQueue ?c @ [x]\<rparr>) @ pre\<rparr>)"
    by (rule Cons.IH) (use Cons.prems in auto)
  with nm Cons.prems show ?case
    by (simp add: readLoop.simps[of matcher ctx])
qed

lemma readLoop_none:
  "\<forall>x \<in> set (inbound (ws ctx)). \<not> matcher x \<Longrightarrow>
     readLoop matcher ctx
       = (Err (ErrorfWrap ''could not read message''
                 (ErrorfWrap ''error reading message'' (LibError ''websocket: read failed''))),
          ctx\<lparr>ws := (ws ctx)\<lparr>inbound := []\<rparr>,
              filteredQueue := filteredQueue ctx @ inbound (ws ctx)\<rparr>)"
proof (induction "inbound (ws ctx)" arbitrary: ctx)
  case Nil
  then have e: "inbound (ws ctx) = []" by simp
  have "ctx\<lparr>ws := (ws ctx)\<lparr>inbound := []\<rparr>, filteredQueue := filteredQueue ctx\<rparr> = ctx"
    using e by (metis ObsidianSocketContext.surjective ObsidianSocketContext.update_convs(1)
        ObsidianSocketContext.update_convs(5) websocket_Conn.surjective
        websocket_Conn.update_convs(1))
  then show ?case
    using e by (simp add: readLoop.simps[of matcher ctx] nextMessage_Nil)
next
  case (Cons x xs)
  let ?c = "ctx\<lparr>ws := (ws ctx)\<lparr>inbound := xs\<rparr>\<rparr>"
  let ?c1 = "?c\<lparr>filteredQueue := filteredQueue ?c @ [x]\<rparr>"
  have inb: "inbound (ws ctx) = x # xs" using Cons.hyps(2) by simp
  have nm: "nextMessage ctx = (Ok x, ?c)" using inb by (simp add: nextMessage_Cons)
  have no: "\<not> matcher x" "\<forall>y \<in> set xs. \<not> matcher y" using Cons.prems inb by simp_all
  have "readLoop matcher ?c1
          = (Err (ErrorfWrap ''could not read message''
                    (ErrorfWrap ''error reading message'' (LibError ''websocket: read failed''))),
             ?c1\<lparr>ws := (ws ?c1)\<lparr>inbound := []\<rparr>,
                 filteredQueue := filteredQueue ?c1 @ inbound (ws ?c1)\<rparr>)"
    by (rule Cons.hyps(1)) (use no in simp_all)
  with nm no inb show ?case
    by (simp add: readLoop.simps[of matcher ctx])
qed

lemma readLoop_matches:
  "readLoop matcher ctx = (Ok m, ctx') \<Longrightarrow> matcher m"
proof (induction "inbound (ws ctx)" arbitrary: ctx)
  case Nil
  then show ?case
    by (simp add: readLoop.simps[of matcher ctx] nextMessage_Nil)
next
  case (Cons x xs)
  have inb: "inbound (ws ctx) = x # xs" using Cons.hyps(2) by simp
  let ?c = "ctx\<lparr>ws := (ws ctx)\<lparr>inbound := xs\<rparr>\<rparr>"
  have nm: "nextMessage ctx = (Ok x, ?c)" using inb by (simp add: nextMessage_Cons)
  show ?case
  proof (cases "matcher x")
    case True
    with nm Cons.prems show ?thesis by (simp add: readLoop.simps[of matcher ctx])
  next
    case False
    with nm Cons.prems
    have "readLoop matcher (?c\<lparr>filteredQueue := filteredQueue ?c @ [x]\<rparr>) = (Ok m, ctx')"
      by (simp add: readLoop.simps[of matcher ctx])
    then show ?thesis by (rule Cons.hyps(1)[rotated]) simp
  qed
qed

lemma nextMessageMatching_queued:
  assumes "filteredQueue ctx = pre @ m # post" "\<forall>x \<in> set pre. \<not> matcher x" "matcher m"
  shows "nextMessageMatching matcher ctx = (Ok m, ctx\<lparr>filteredQueue := pre @ post\<rparr>)"
  using scanQueue_found[of "filteredQueue ctx" "[]" pre m post 0 matcher] assms
  by (simp add: nextMessageMatching_def)

lemma nextMessageMatching_read:
  assumes "\<forall>x \<in> set (filteredQueue ctx). \<not> matcher x"
    and "inbound (ws ctx) = pre @ m # rest" "\<forall>x \<in> set pre. \<not> matcher x" "matcher m"
  shows "nextMessageMatching matcher ctx
           = (Ok m, ctx\<lparr>ws := (ws ctx)\<lparr>inbound := rest\<rparr>,
                       filteredQueue := filteredQueue ctx @ pre\<rparr>)"
  using scanQueue_none[of 0 "filteredQueue ctx" matcher] readLoop_found[OF assms(2-4)] assms(1)
  by (simp add: nextMessageMatching_def)

lemma nextMessageMatching_closed:
  assumes "\<forall>x \<in> set (filteredQueue ctx). \<not> matcher x"
    and "\<forall>x \<in> set (inbound (ws ctx)). \<not> matcher x"
  shows "nextMessageMatching matcher ctx
           = (Err (ErrorfWrap ''could not read message''
                     (ErrorfWrap ''error reading message'' (LibError ''websocket: read failed''))),
              ctx\<lparr>ws := (ws ctx)\<lparr>inbound := []\<rparr>,
                  filteredQueue := filteredQueue ctx @ inbound (ws ctx)\<rparr>)"
  using scanQueue_none[of 0 "filteredQueue ctx" matcher] readLoop_none[OF assms(2)] assms(1)
  by (simp add: nextMessageMatching_def)

lemma nextMessageMatching_matches:
  "nextMessageMatching matcher ctx = (Ok m, ctx') \<Longrightarrow> matcher m"
  by (auto simp: nextMessageMatching_def split: option.splits
           dest: scanQueue_matches readLoop_matches)


text \<open>
  Claim C7. If a queued frame matches, \<open>nextMessageMatching\<close> returns the first one that
  does and takes it out of the queue; the other queued frames keep their order and
  nothing is read. If no queued frame matches, it reads frames one by one, returns the
  first that matches and appends the frames read before it to the queue, in the order
  they came. If nothing matches before the read side fails, every frame read ends in the
  queue and the result is an error. A frame it returns always matches.
\<close>

theorem nextMessageMatching_contract:
  "(\<forall>pre m post.
       filteredQueue ctx = pre @ m # post \<and> (\<forall>x \<in> set pre. \<not> matcher x) \<and> matcher m \<longrightarrow>
       nextMessageMatching matcher ctx = (Ok m, ctx\<lparr>filteredQueue := pre @ post\<rparr>))
   \<and> (\<forall>pre m rest.
       (\<forall>x \<in> set (filteredQueue ctx). \<not> matcher x)
       \<and> inbound (ws ctx) = pre @ m # rest \<and> (\<forall>x \<in> set pre. \<not> matcher x) \<and> matcher m \<longrightarrow>
       nextMessageMatching matcher ctx
         = (Ok m, ctx\<lparr>ws := (ws ctx)\<lparr>inbound := rest\<rparr>,
                     filteredQueue := filteredQueue ctx @ pre\<rparr>))
   \<and> ((\<forall>x \<in> set (filteredQueue ctx). \<not> matcher x)
        \<and> (\<forall>x \<in> set (inbound (ws ctx)). \<not> matcher x) \<longrightarrow>
       (\<exists>err. nextMessageMatching matcher ctx
                = (Err err, ctx\<lparr>ws := (ws ctx)\<lparr>inbound := []\<rparr>,
                               filteredQueue := filteredQueue ctx @ inbound (ws ctx)\<rparr>)))
   \<and> (\<forall>m ctx'. nextMessageMatching matcher ctx = (Ok m, ctx') \<longrightarrow> matcher m)"
proof (intro conjI allI impI)
  fix pre m post
  assume "filteredQueue ctx = pre @ m # post \<and> (\<forall>x \<in> set pre. \<not> matcher x) \<and> matcher m"
  then show "nextMessageMatching matcher ctx = (Ok m, ctx\<lparr>filteredQueue := pre @ post\<rparr>)"
    by (simp add: nextMessageMatching_queued)
next
  fix pre m rest
  assume "(\<forall>x \<in> set (filteredQueue ctx). \<not> matcher x)
       \<and> inbound (ws ctx) = pre @ m # rest \<and> (\<forall>x \<in> set pre. \<not> matcher x) \<and> matcher m"
  then show "nextMessageMatching matcher ctx
         = (Ok m, ctx\<lparr>ws := (ws ctx)\<lparr>inbound := rest\<rparr>,
                     filteredQueue := filteredQueue ctx @ pre\<rparr>)"
    by (simp add: nextMessageMatching_read)
next
  assume "(\<forall>x \<in> set (filteredQueue ctx). \<not> matcher x)
        \<and> (\<forall>x \<in> set (inbound (ws ctx)). \<not> matcher x)"
  then show "\<exists>err. nextMessageMatching matcher ctx
                = (Err err, ctx\<lparr>ws := (ws ctx)\<lparr>inbound := []\<rparr>,
                               filteredQueue := filteredQueue ctx @ inbound (ws ctx)\<rparr>)"
    by (simp add: nextMessageMatching_closed)
next
  fix m ctx'
  assume "nextMessageMatching matcher ctx = (Ok m, ctx')"
  then show "matcher m" by (rule nextMessageMatching_matches)
qed

text \<open>Four frames queued and three to come.\<close>

definition queuedCtx :: ObsidianSocketContext where
  "queuedCtx =
     \<lparr>ws = \<lparr>inbound = [[3, 1], [5], [4, 9]], outbound = [], writes_left = 100\<rparr>,
      Vault = \<lparr>vault_Id = ''v1'', vault_Name = ''demo'', vault_Password = [],
               vault_Salt = [], vault_Host = ''host''\<rparr>,
      authToken = ''token'', keyhash = ''keyhash'',
      filteredQueue = [[1], [5], [2], [5]]\<rparr>"

theorem nextMessageMatching_contract_witness:
  "nextMessageMatching (\<lambda>f. f = [5]) queuedCtx
     = (Ok [5], queuedCtx\<lparr>filteredQueue := [[1], [2], [5]]\<rparr>)
   \<and> nextMessageMatching (\<lambda>f. f = [4, 9]) queuedCtx
     = (Ok [4, 9], queuedCtx\<lparr>ws := (ws queuedCtx)\<lparr>inbound := []\<rparr>,
                            filteredQueue := [[1], [5], [2], [5], [3, 1], [5]]\<rparr>)
   \<and> (\<exists>err. nextMessageMatching (\<lambda>f. f = [7]) queuedCtx
        = (Err err, queuedCtx\<lparr>ws := (ws queuedCtx)\<lparr>inbound := []\<rparr>,
                              filteredQueue := [[1], [5], [2], [5], [3, 1], [5], [4, 9]]\<rparr>))"
proof -
  have q: "filteredQueue queuedCtx = [[1], [5], [2], [5]]"
    and i: "inbound (ws queuedCtx) = [[3, 1], [5], [4, 9]]"
    by (simp_all add: queuedCtx_def)
  have a: "nextMessageMatching (\<lambda>f. f = [5]) queuedCtx
             = (Ok [5], queuedCtx\<lparr>filteredQueue := [[1]] @ [[2], [5]]\<rparr>)"
    by (rule nextMessageMatching_contract[of queuedCtx "\<lambda>f. f = [5]",
          THEN conjunct1, rule_format, of "[[1]]" "[5]" "[[2], [5]]"])
       (simp add: q)
  have b: "nextMessageMatching (\<lambda>f. f = [4, 9]) queuedCtx
             = (Ok [4, 9], queuedCtx\<lparr>ws := (ws queuedCtx)\<lparr>inbound := []\<rparr>,
                  filteredQueue := filteredQueue queuedCtx @ [[3, 1], [5]]\<rparr>)"
    by (rule nextMessageMatching_contract[of queuedCtx "\<lambda>f. f = [4, 9]",
          THEN conjunct2, THEN conjunct1, rule_format, of "[[3, 1], [5]]" "[4, 9]" "[]"])
       (simp add: q i)
  have c: "\<exists>err. nextMessageMatching (\<lambda>f. f = [7]) queuedCtx
             = (Err err, queuedCtx\<lparr>ws := (ws queuedCtx)\<lparr>inbound := []\<rparr>,
                  filteredQueue := filteredQueue queuedCtx @ inbound (ws queuedCtx)\<rparr>)"
    by (rule nextMessageMatching_contract[of queuedCtx "\<lambda>f. f = [7]",
          THEN conjunct2, THEN conjunct2, THEN conjunct1, rule_format])
       (simp add: q i)
  from a b c show ?thesis by (simp only: q i append.simps)
qed

section \<open>Facts about the handshake\<close>


definition isPushFrame :: "lib \<Rightarrow> bytes \<Rightarrow> bool" where
  "isPushFrame l msg =
     (case json_Unmarshal_map l msg of
        Inl err \<Rightarrow> False
      | Inr msgMap \<Rightarrow> json_index msgMap ''op'' = JString ''push'')"

definition isReadyFrame :: "lib \<Rightarrow> bytes \<Rightarrow> bool" where
  "isReadyFrame l msg =
     (case json_Unmarshal_map l msg of
        Inl err \<Rightarrow> False
      | Inr msgMap \<Rightarrow> json_index msgMap ''op'' = JString ''ready'')"









text \<open>The frames of \<open>demo_lib\<close>, decoded.\<close>

lemma demo_json_fields [simp]:
  "json_Unmarshal_map demo_lib = demo_json_map"
  "json_Marshal demo_lib m = Inr []"
  "json_Unmarshal_Res demo_lib [1] = Inr ''ok''"
  "json_Unmarshal_Res demo_lib [2] = Inr ''next''"
  "json_Unmarshal_Op demo_lib [7] = Inr ''ok''"
  "json_Unmarshal_Ready demo_lib [4, v] = Inr (''ready'', uint v)"
  by (simp_all add: demo_lib_def demo_json_map_def)


lemma demo_frames [simp]:
  "isPushFrame demo_lib [3, u]" "\<not> isReadyFrame demo_lib [3, u]"
  "isReadyFrame demo_lib [4, v]" "\<not> isPushFrame demo_lib [4, v]"
  "\<not> isPushFrame demo_lib [5]" "\<not> isReadyFrame demo_lib [5]"
  "\<not> isPushFrame demo_lib [1]" "\<not> isReadyFrame demo_lib [1]"
  by (simp_all add: isPushFrame_def isReadyFrame_def demo_json_map_def json_index_def)

lemma demo_sendMessage:
  "sendMessage demo_lib (demo_ctx frames) msg
     = (Ok (), (demo_ctx frames)\<lparr>ws := \<lparr>inbound = frames, outbound = [TextFrame msg],
                                          writes_left = 99\<rparr>\<rparr>)"
  by (simp add: sendMessage_def ws_Write_def demo_ctx_def)










section \<open>Facts about pulling a file\<close>


















text \<open>
  On the small instance: the context once the pull message for uid 7 is sent, and the
  frames read so far taken off.
\<close>

definition pulling :: "bytes list \<Rightarrow> ObsidianSocketContext" where
  "pulling frames =
     (demo_ctx [])\<lparr>ws := \<lparr>inbound = frames,
                            outbound = [TextFrame (JPull \<lparr>pull_Op = ''pull'', pull_UID = 7\<rparr>)],
                            writes_left = 99\<rparr>\<rparr>"











section \<open>Facts about pushing a file\<close>

text \<open>The matcher of \<^verbatim>\<open>nextMessageWithJsonValue\<close>.\<close>

definition hasValue :: "lib \<Rightarrow> string \<Rightarrow> json_value \<Rightarrow> bytes \<Rightarrow> bool" where
  "hasValue l key v msg =
     (case json_Unmarshal_map l msg of
        Inl err \<Rightarrow> False
      | Inr msgMap \<Rightarrow> if json_index msgMap key \<noteq> v then False else True)"

lemma nextMessageWithJsonValue_unfold:
  "nextMessageWithJsonValue l key v ctx = nextMessageMatching (hasValue l key v) ctx"
  unfolding nextMessageWithJsonValue_def nextMessageMatchingJson_def hasValue_def[abs_def]
  by (rule refl)

lemma readLoop_outbound:
  "readLoop matcher ctx = (r, ctx') \<Longrightarrow>
     outbound (ws ctx') = outbound (ws ctx) \<and> writes_left (ws ctx') = writes_left (ws ctx)"
proof (induction "inbound (ws ctx)" arbitrary: ctx)
  case Nil
  then show ?case
    by (auto simp: readLoop.simps[of matcher ctx] nextMessage_Nil)
next
  case (Cons x xs)
  have inb: "inbound (ws ctx) = x # xs" using Cons.hyps(2) by simp
  let ?c = "ctx\<lparr>ws := (ws ctx)\<lparr>inbound := xs\<rparr>\<rparr>"
  have nm: "nextMessage ctx = (Ok x, ?c)" using inb by (simp add: nextMessage_Cons)
  show ?case
  proof (cases "matcher x")
    case True
    with nm Cons.prems show ?thesis by (auto simp: readLoop.simps[of matcher ctx])
  next
    case False
    with nm Cons.prems
    have "readLoop matcher (?c\<lparr>filteredQueue := filteredQueue ?c @ [x]\<rparr>) = (r, ctx')"
      by (simp add: readLoop.simps[of matcher ctx])
    from Cons.hyps(1)[OF _ this] show ?thesis by simp
  qed
qed

lemma nextMessageMatching_outbound:
  "nextMessageMatching matcher ctx = (r, ctx') \<Longrightarrow>
     outbound (ws ctx') = outbound (ws ctx) \<and> writes_left (ws ctx') = writes_left (ws ctx)"
  by (auto simp: nextMessageMatching_def split: option.splits dest: readLoop_outbound)

lemma nextMessageWithJsonValue_outbound:
  "nextMessageWithJsonValue l key v ctx = (r, ctx') \<Longrightarrow> outbound (ws ctx') = outbound (ws ctx)"
  by (simp add: nextMessageWithJsonValue_unfold nextMessageMatching_outbound)

lemma sendMessage_outbound:
  "0 < writes_left (ws ctx) \<Longrightarrow> sendMessage l ctx msg = (r, ctx') \<Longrightarrow>
     outbound (ws ctx') = outbound (ws ctx) @ [TextFrame msg]"
  by (auto simp: sendMessage_def ws_Write_def split: sum.splits)

lemma sendBinary_outbound:
  "sendBinary ctx b = (r, ctx') \<Longrightarrow>
     (r \<noteq> Ok () \<and> ctx' = ctx)
     \<or> (r = Ok () \<and> 0 < writes_left (ws ctx)
         \<and> outbound (ws ctx') = outbound (ws ctx) @ [BinaryFrame b])"
  by (auto simp: sendBinary_def ws_Write_def split: if_splits)

text \<open>What \<^verbatim>\<open>PushFile\<close> does once the content is sent: two waits, which write nothing.\<close>

definition afterContent :: "lib \<Rightarrow> ObsidianSocketContext \<Rightarrow> unit io" where
  "afterContent l ctx3 =
     (case nextMessageWithJsonValue l ''op'' (JString ''push'') ctx3 of
        (Err err, ctx4) \<Rightarrow> (Err (ErrorfWrap ''error reading push response'' err), ctx4)
      | (Panic p, ctx4) \<Rightarrow> (Panic p, ctx4)
      | (Ok response2, ctx4) \<Rightarrow>
     (case json_Unmarshal_IncomingPush l response2 of
        Inl err \<Rightarrow> (Err (ErrorfWrap ''could not unmarshal push response'' err), ctx4)
      | Inr pushResponse \<Rightarrow>
     (case nextMessageWithJsonValue l ''op'' (JString ''ok'') ctx4 of
        (Err err, ctx5) \<Rightarrow> (Err (ErrorfWrap ''error reading ok response'' err), ctx5)
      | (Panic p, ctx5) \<Rightarrow> (Panic p, ctx5)
      | (Ok response3, ctx5) \<Rightarrow>
     (case json_Unmarshal_Op l response3 of
        Inl err \<Rightarrow> (Err (ErrorfWrap ''could not unmarshal ok response'' err), ctx5)
      | Inr okResponse \<Rightarrow>
          (if okResponse \<noteq> ''ok'' then (Err (Errorf ''ok response is not ok''), ctx5)
           else (Ok (), ctx5))))))"

lemma afterContent_outbound:
  "outbound (ws (snd (afterContent l ctx3))) = outbound (ws ctx3)"
proof -
  obtain r4 ctx4 where a: "nextMessageWithJsonValue l ''op'' (JString ''push'') ctx3 = (r4, ctx4)"
    by (cases "nextMessageWithJsonValue l ''op'' (JString ''push'') ctx3")
  obtain r5 ctx5 where b: "nextMessageWithJsonValue l ''op'' (JString ''ok'') ctx4 = (r5, ctx5)"
    by (cases "nextMessageWithJsonValue l ''op'' (JString ''ok'') ctx4")
  have o: "outbound (ws ctx4) = outbound (ws ctx3)" "outbound (ws ctx5) = outbound (ws ctx3)"
    using nextMessageWithJsonValue_outbound[OF a] nextMessageWithJsonValue_outbound[OF b]
    by simp_all
  show ?thesis
    using o by (simp add: afterContent_def a b split: result.splits sum.splits)
qed


text \<open>
  Claim C8. When the three encryptions of \<open>PushFile\<close> succeed and the socket can be
  written, the first frame \<open>PushFile\<close> writes is the push descriptor: its hash is the
  text encoding of the encryption of the SHA-256 digest of the unencrypted content, its
  size is the length of the encrypted content, and its pieces field is 1. The only other
  frame it may write is the encrypted content as one binary frame, after the descriptor;
  and when that frame has been written, the wait that follows the descriptor has
  returned a frame whose \<^verbatim>\<open>res\<close> is next. Conversely, once that acknowledgment is received
  and the socket can still be written, the content is sent.
\<close>

theorem PushFile_descriptor:
  assumes e1: "Encrypt l rnd1 content (bytes_of_string (vault_Password (Vault ctx)))
                 (bytes_of_string (vault_Salt (Vault ctx))) = Ok encryptedContent"
    and e2: "Encrypt l rnd2 (bytes_of_string path) (bytes_of_string (vault_Password (Vault ctx)))
                 (bytes_of_string (vault_Salt (Vault ctx))) = Ok encryptedPath"
    and e3: "Encrypt l rnd3 (sha256_Sum256 l content)
                 (bytes_of_string (vault_Password (Vault ctx)))
                 (bytes_of_string (vault_Salt (Vault ctx))) = Ok encryptedContentSum"
    and w: "0 < writes_left (ws ctx)"
    and d: "descriptor = \<lparr>out_Op = ''push'',
                          out_Path = hex_EncodeToString l encryptedPath,
                          out_Ext = extension,
                          out_Hash = hex_EncodeToString l encryptedContentSum,
                          out_Ctime = ctime, out_Mtime = mtime,
                          out_Folder = folder, out_Deleted = deleted,
                          out_Size = int (length encryptedContent),
                          out_Pieces = 1\<rparr>"
    and run: "PushFile l rnd1 rnd2 rnd3 ctx path extension ctime mtime folder deleted content
                = (res, ctx')"
  shows "(outbound (ws ctx') = outbound (ws ctx) @ [TextFrame (JPush descriptor)]
          \<or> outbound (ws ctx')
               = outbound (ws ctx) @ [TextFrame (JPush descriptor), BinaryFrame encryptedContent])
       \<and> (outbound (ws ctx')
             = outbound (ws ctx) @ [TextFrame (JPush descriptor), BinaryFrame encryptedContent]
           \<longrightarrow>
            (\<exists>ctx1 response ctx2.
                sendMessage l ctx (JPush descriptor) = (Ok (), ctx1)
              \<and> nextMessageWithJsonValue l ''res'' (JString ''next'') ctx1 = (Ok response, ctx2)
              \<and> hasValue l ''res'' (JString ''next'') response
              \<and> json_Unmarshal_Res l response = Inr ''next''))
       \<and> (\<forall>ctx1 response ctx2.
              sendMessage l ctx (JPush descriptor) = (Ok (), ctx1)
            \<and> nextMessageWithJsonValue l ''res'' (JString ''next'') ctx1 = (Ok response, ctx2)
            \<and> json_Unmarshal_Res l response = Inr ''next''
            \<and> 0 < writes_left (ws ctx2) \<longrightarrow>
              outbound (ws ctx')
                = outbound (ws ctx) @ [TextFrame (JPush descriptor), BinaryFrame encryptedContent])"
proof -
  obtain r1 ctx1 where s1: "sendMessage l ctx (JPush descriptor) = (r1, ctx1)"
    by (cases "sendMessage l ctx (JPush descriptor)")
  have o1: "outbound (ws ctx1) = outbound (ws ctx) @ [TextFrame (JPush descriptor)]"
    by (rule sendMessage_outbound[OF w s1])
  obtain r2 ctx2 where s2: "nextMessageWithJsonValue l ''res'' (JString ''next'') ctx1 = (r2, ctx2)"
    by (cases "nextMessageWithJsonValue l ''res'' (JString ''next'') ctx1")
  have o2: "outbound (ws ctx2) = outbound (ws ctx1)"
    by (rule nextMessageWithJsonValue_outbound[OF s2])
  obtain r3 ctx3 where s3: "sendBinary ctx2 encryptedContent = (r3, ctx3)"
    by (cases "sendBinary ctx2 encryptedContent")
  note o3 = sendBinary_outbound[OF s3]
  have o4: "outbound (ws (snd (afterContent l ctx3))) = outbound (ws ctx3)"
    by (rule afterContent_outbound)
  have steps: "PushFile l rnd1 rnd2 rnd3 ctx path extension ctime mtime folder deleted content
     = (case r1 of
          Err err \<Rightarrow> (Err (ErrorfWrap ''could not send push message'' err), ctx1)
        | Panic p \<Rightarrow> (Panic p, ctx1)
        | Ok u \<Rightarrow>
       (case r2 of
          Err err \<Rightarrow> (Err (ErrorfWrap ''error reading next response'' err), ctx2)
        | Panic p \<Rightarrow> (Panic p, ctx2)
        | Ok response \<Rightarrow>
       (case json_Unmarshal_Res l response of
          Inl err \<Rightarrow> (Err (ErrorfWrap ''could not unmarshal next response'' err), ctx2)
        | Inr nextResponse \<Rightarrow>
       (if nextResponse \<noteq> ''next'' then (Err (Errorf ''next response is not next''), ctx2)
        else
       (case r3 of
          Err err \<Rightarrow> (Err (ErrorfWrap ''could not send encrypted content'' err), ctx3)
        | Panic p \<Rightarrow> (Panic p, ctx3)
        | Ok u \<Rightarrow> afterContent l ctx3)))))"
    using s1 s2 s3
    by (simp add: PushFile_def Let_def e1 e2 e3 d[symmetric] afterContent_def
          split: result.splits sum.splits)
  have notin: "outbound (ws ctx) @ [TextFrame (JPush descriptor)]
                 \<noteq> outbound (ws ctx) @ [TextFrame (JPush descriptor), BinaryFrame encryptedContent]"
    by simp
  have matched: "hasValue l ''res'' (JString ''next'') response" if "r2 = Ok response" for response
    using s2 that nextMessageMatching_matches[of "hasValue l ''res'' (JString ''next'')" ctx1 response ctx2]
    by (simp add: nextMessageWithJsonValue_unfold)
  consider
    (stopped) "outbound (ws ctx') = outbound (ws ctx) @ [TextFrame (JPush descriptor)]"
      "\<not> (\<exists>response. r1 = Ok () \<and> r2 = Ok response
              \<and> json_Unmarshal_Res l response = Inr ''next'' \<and> 0 < writes_left (ws ctx2))"
  | (sent) response where "r1 = Ok ()" "r2 = Ok response"
      "json_Unmarshal_Res l response = Inr ''next''" "0 < writes_left (ws ctx2)"
      "outbound (ws ctx')
         = outbound (ws ctx) @ [TextFrame (JPush descriptor), BinaryFrame encryptedContent]"
  proof (cases r1)
    case (Ok u)
    show ?thesis
    proof (cases r2)
      case r2: (Ok response)
      show ?thesis
      proof (cases "json_Unmarshal_Res l response")
        case (Inl err)
        with Ok r2 run steps o1 o2 show ?thesis by (intro stopped) auto
      next
        case (Inr nextResponse)
        show ?thesis
        proof (cases "nextResponse = ''next''")
          case False
          with Ok r2 Inr run steps o1 o2 show ?thesis by (intro stopped) auto
        next
          case True
          show ?thesis
          proof (cases r3)
            case r3: (Ok u3)
            with o3 have w2: "0 < writes_left (ws ctx2)"
              and o3': "outbound (ws ctx3) = outbound (ws ctx2) @ [BinaryFrame encryptedContent]"
              by auto
            have "ctx' = snd (afterContent l ctx3)"
              using Ok r2 Inr True r3 run steps by simp
            with o4 o3' o2 o1 have "outbound (ws ctx')
                = outbound (ws ctx) @ [TextFrame (JPush descriptor), BinaryFrame encryptedContent]"
              by simp
            with Ok r2 Inr True w2 show ?thesis by (intro sent[of response]) auto
          next
            case (Err err)
            with o3 have c3: "ctx3 = ctx2" by auto
            have nw: "\<not> 0 < writes_left (ws ctx2)"
              using s3 Err by (auto simp: sendBinary_def ws_Write_def split: if_splits)
            from Ok r2 Inr True Err run steps c3 o1 o2 nw show ?thesis
              by (intro stopped) auto
          next
            case (Panic p)
            with s3 show ?thesis by (auto simp: sendBinary_def split: sum.splits)
          qed
        qed
      qed
    qed (use Ok run steps o1 o2 in \<open>(intro stopped; auto)+\<close>)
  qed (use run steps o1 in \<open>(intro stopped; auto)+\<close>)
  then show ?thesis
  proof cases
    case stopped
    have "\<not> (\<exists>ctx1' response ctx2'.
              sendMessage l ctx (JPush descriptor) = (Ok (), ctx1')
            \<and> nextMessageWithJsonValue l ''res'' (JString ''next'') ctx1' = (Ok response, ctx2')
            \<and> json_Unmarshal_Res l response = Inr ''next''
            \<and> 0 < writes_left (ws ctx2'))"
      using stopped(2) s1 s2 by auto
    with stopped(1) notin show ?thesis by auto
  next
    case sent
    have "\<exists>c1 rsp c2.
                sendMessage l ctx (JPush descriptor) = (Ok (), c1)
              \<and> nextMessageWithJsonValue l ''res'' (JString ''next'') c1 = (Ok rsp, c2)
              \<and> hasValue l ''res'' (JString ''next'') rsp
              \<and> json_Unmarshal_Res l rsp = Inr ''next''"
      using sent s1 s2 matched by auto
    with sent(5) show ?thesis by simp
  qed
qed


text \<open>
  A push on the small instance: the content 1, 2, 3 under the path \<open>note.md\<close>, with the
  nonces 7,...,7, 8,...,8 and 9,...,9, and a server that answers next, echoes the push
  and says ok.
\<close>

definition sealedWith :: "byte \<Rightarrow> bytes \<Rightarrow> bytes" where
  "sealedWith b p = replicate 12 b @ gcm_Seal demo_lib (replicate 32 0) (replicate 12 b) p"

definition demoDescriptor :: OutgoingPushMessage where
  "demoDescriptor =
     \<lparr>out_Op = ''push'',
      out_Path = hex_EncodeToString demo_lib (sealedWith 8 (bytes_of_string ''note.md'')),
      out_Ext = ''md'',
      out_Hash = hex_EncodeToString demo_lib (sealedWith 9 (sha256_Sum256 demo_lib [1, 2, 3])),
      out_Ctime = 10, out_Mtime = 20, out_Folder = False, out_Deleted = False,
      out_Size = 31, out_Pieces = 1\<rparr>"

definition pushing :: "bytes list \<Rightarrow> ObsidianSocketContext" where
  "pushing frames =
     (demo_ctx [])\<lparr>ws := \<lparr>inbound = frames, outbound = [TextFrame (JPush demoDescriptor)],
                            writes_left = 99\<rparr>\<rparr>"

lemma demo_sealedWith: "Encrypt demo_lib (replicate 12 b) p [] [] = Ok (sealedWith b p)"
  using demo_Encrypt[of "replicate 12 b" p] by (simp add: sealedWith_def)

lemma sealedWith_length: "length (sealedWith b p) = 28 + length p"
  by (simp add: sealedWith_def demo_lib_def demo_tag_length)

lemma demo_descriptor_sent:
  "sendMessage demo_lib (demo_ctx frames) (JPush demoDescriptor) = (Ok (), pushing frames)"
  by (simp add: sendMessage_def ws_Write_def pushing_def demo_ctx_def)

lemma demo_next:
  "nextMessageWithJsonValue demo_lib ''res'' (JString ''next'') (pushing ([2] # frames))
     = (Ok [2], pushing frames)"
proof -
  have m: "hasValue demo_lib ''res'' (JString ''next'') [2]"
    by (simp add: hasValue_def demo_json_map_def json_index_def)
  have "nextMessageMatching (hasValue demo_lib ''res'' (JString ''next'')) (pushing ([2] # frames))
          = (Ok [2],
             (pushing ([2] # frames))
               \<lparr>ws := (ws (pushing ([2] # frames)))\<lparr>inbound := frames\<rparr>,
                filteredQueue := filteredQueue (pushing ([2] # frames)) @ []\<rparr>)"
    by (rule nextMessageMatching_read[where pre = "[]"])
       (use m in \<open>simp_all add: pushing_def demo_ctx_def\<close>)
  then show ?thesis
    by (simp add: nextMessageWithJsonValue_unfold pushing_def demo_ctx_def)
qed

theorem PushFile_descriptor_witness:
  "outbound (ws (snd (PushFile demo_lib (replicate 12 7) (replicate 12 8) (replicate 12 9)
                        (demo_ctx [[2], [3, 1], [7]]) ''note.md'' ''md'' 10 20 False False
                        [1, 2, 3])))
     = [TextFrame (JPush demoDescriptor), BinaryFrame (sealedWith 7 [1, 2, 3])]
   \<and> out_Hash demoDescriptor
       = hex_EncodeToString demo_lib (sealedWith 9 (sha256_Sum256 demo_lib [1, 2, 3]))
   \<and> Encrypt demo_lib (replicate 12 9) (sha256_Sum256 demo_lib [1, 2, 3]) [] []
       = Ok (sealedWith 9 (sha256_Sum256 demo_lib [1, 2, 3]))
   \<and> out_Size demoDescriptor = int (length (sealedWith 7 [1, 2, 3]))
   \<and> out_Pieces demoDescriptor = 1"
proof -
  let ?ctx = "demo_ctx [[2], [3, 1], [7]]"
  let ?run = "PushFile demo_lib (replicate 12 7) (replicate 12 8) (replicate 12 9) ?ctx
                ''note.md'' ''md'' 10 20 False False [1, 2, 3]"
  have v: "bytes_of_string (vault_Password (Vault ?ctx)) = []"
          "bytes_of_string (vault_Salt (Vault ?ctx)) = []"
    by (simp_all add: demo_ctx_def demo_vault_def bytes_of_string_def)
  have e1: "Encrypt demo_lib (replicate 12 7) [1, 2, 3]
              (bytes_of_string (vault_Password (Vault ?ctx)))
              (bytes_of_string (vault_Salt (Vault ?ctx))) = Ok (sealedWith 7 [1, 2, 3])"
    by (simp only: v demo_sealedWith)
  have e2: "Encrypt demo_lib (replicate 12 8) (bytes_of_string ''note.md'')
              (bytes_of_string (vault_Password (Vault ?ctx)))
              (bytes_of_string (vault_Salt (Vault ?ctx)))
              = Ok (sealedWith 8 (bytes_of_string ''note.md''))"
    by (simp only: v demo_sealedWith)
  have e3: "Encrypt demo_lib (replicate 12 9) (sha256_Sum256 demo_lib [1, 2, 3])
              (bytes_of_string (vault_Password (Vault ?ctx)))
              (bytes_of_string (vault_Salt (Vault ?ctx)))
              = Ok (sealedWith 9 (sha256_Sum256 demo_lib [1, 2, 3]))"
    by (simp only: v demo_sealedWith)
  have w: "0 < writes_left (ws ?ctx)" by (simp add: demo_ctx_def)
  have d: "demoDescriptor = \<lparr>out_Op = ''push'',
             out_Path = hex_EncodeToString demo_lib (sealedWith 8 (bytes_of_string ''note.md'')),
             out_Ext = ''md'',
             out_Hash = hex_EncodeToString demo_lib
                          (sealedWith 9 (sha256_Sum256 demo_lib [1, 2, 3])),
             out_Ctime = 10, out_Mtime = 20, out_Folder = False, out_Deleted = False,
             out_Size = int (length (sealedWith 7 [1, 2, 3])), out_Pieces = 1\<rparr>"
    by (simp add: demoDescriptor_def sealedWith_length)
  have run: "?run = (fst ?run, snd ?run)" by simp
  note t = PushFile_descriptor[OF e1 e2 e3 w d run, THEN conjunct2, THEN conjunct2, rule_format,
             of "pushing [[2], [3, 1], [7]]" "[2]" "pushing [[3, 1], [7]]"]
  have "outbound (ws (snd ?run))
          = outbound (ws ?ctx) @ [TextFrame (JPush demoDescriptor),
                                  BinaryFrame (sealedWith 7 [1, 2, 3])]"
    by (rule t) (simp add: demo_descriptor_sent demo_next, simp add: demo_lib_def pushing_def)
  moreover have "outbound (ws ?ctx) = []" by (simp add: demo_ctx_def)
  ultimately show ?thesis
    using e3 v by (simp add: demoDescriptor_def sealedWith_length)
qed

end
